theory Spec2Isabelle
  imports Main "HOL-Library.Word" "HOL-Library.Sublist"
begin

section \<open>Strings\<close>

text \<open>
  A JavaScript string is a sequence of 16-bit code units. \<open>text[j]\<close> and
  \<open>text.length\<close> work on code units; \<open>for (const char of word)\<close> iterates by
  code point, so a high surrogate followed by a low surrogate is delivered as one
  two-unit string.
\<close>

type_synonym code_unit = "16 word"
type_synonym jsstring = "code_unit list"

definition isHighSurrogate :: "code_unit \<Rightarrow> bool" where
  "isHighSurrogate u = (0xD800 \<le> u \<and> u \<le> 0xDBFF)"

definition isLowSurrogate :: "code_unit \<Rightarrow> bool" where
  "isLowSurrogate u = (0xDC00 \<le> u \<and> u \<le> 0xDFFF)"

text \<open>The string iterator used by \<open>for ... of\<close>: the sequence of one-code-point strings.\<close>

fun codePoints :: "jsstring \<Rightarrow> jsstring list" where
  "codePoints [] = []"
| "codePoints [u] = [[u]]"
| "codePoints (u # v # rest) =
     (if isHighSurrogate u \<and> isLowSurrogate v then [u, v] # codePoints rest
      else [u] # codePoints (v # rest))"

text \<open>An ASCII literal as a JavaScript string (one code unit per character).\<close>

definition js :: "string \<Rightarrow> jsstring" where
  "js s = map (\<lambda>c. word_of_nat (of_char c)) s"

text \<open>Truthiness of an optional string: \<open>undefined\<close> and \<open>""\<close> are falsy.\<close>

fun truthy :: "jsstring option \<Rightarrow> bool" where
  "truthy None = False"
| "truthy (Some s) = (s \<noteq> [])"

section \<open>Trie.ts\<close>

datatype TrieNode = TrieNode
  (children: "jsstring \<Rightarrow> TrieNode option")
  (isEndOfWord: bool)
  (word: "jsstring option")
  (replacement: "jsstring option")

definition createNode :: TrieNode where
  "createNode = TrieNode (\<lambda>_. None) False None None"

text \<open>
  \<open>insert\<close> descends from the root along the code points of the word, creating the
  missing children, and marks the node it ends on. The source mutates the nodes in
  place; here the path is rebuilt.
\<close>

fun insertFrom :: "TrieNode \<Rightarrow> jsstring list \<Rightarrow> jsstring \<Rightarrow> jsstring \<Rightarrow> TrieNode" where
  "insertFrom current [] w r =
     TrieNode (children current) True (Some w) (Some r)"
| "insertFrom current (char # chars) w r =
     (let child = (case children current char of None \<Rightarrow> createNode | Some c \<Rightarrow> c)
      in TrieNode ((children current)(char \<mapsto> insertFrom child chars w r))
           (isEndOfWord current) (word current) (replacement current))"

definition Trie_insert :: "TrieNode \<Rightarrow> jsstring \<Rightarrow> jsstring \<Rightarrow> TrieNode" where
  "Trie_insert root w r = insertFrom root (codePoints w) w r"

text \<open>
  The objects pushed to \<open>matches\<close> and the object held in \<open>lastMatch\<close>. The
  selectors \<open>word\<close> and \<open>replacement\<close> belong to the trie node, so the fields of a
  match are \<open>word_m\<close> and \<open>replacement_m\<close> and those of the last match carry the
  prefix \<open>lm\<close>; the end offset of a match is \<open>end'\<close>.
\<close>

record Match =
  start :: int
  end' :: int
  word_m :: jsstring
  replacement_m :: jsstring

record LastMatch =
  lm_end :: int
  lm_word :: jsstring
  lm_replacement :: jsstring

text \<open>
  The inner \<open>while\<close> loop of \<open>findAllMatches\<close>: from node \<open>current\<close> and offset
  \<open>j\<close>, follow the edge labelled with the code unit \<open>text[j]\<close> while there is one.
\<close>

function walk :: "jsstring \<Rightarrow> TrieNode \<Rightarrow> nat \<Rightarrow> LastMatch option \<Rightarrow> LastMatch option" where
  "walk text current j lastMatch =
     (if j < length text then
        (case children current [text ! j] of
           None \<Rightarrow> lastMatch
         | Some nxt \<Rightarrow>
             walk text nxt (j + 1)
               (if isEndOfWord nxt \<and> truthy (word nxt) \<and> truthy (replacement nxt)
                then Some \<lparr>lm_end = int (j + 1), lm_word = the (word nxt),
                            lm_replacement = the (replacement nxt)\<rparr>
                else lastMatch))
      else lastMatch)"
  by pat_completeness auto
termination
  by (relation "measure (\<lambda>(text, current, j, lastMatch). length text - j)") auto

declare walk.simps [simp del]

text \<open>The outer \<open>for\<close> loop over the start offsets \<open>i\<close>.\<close>

function scan :: "TrieNode \<Rightarrow> jsstring \<Rightarrow> nat \<Rightarrow> Match list \<Rightarrow> Match list" where
  "scan root text i matches =
     (if i < length text then
        (case walk text root i None of
           None \<Rightarrow> scan root text (i + 1) matches
         | Some lastMatch \<Rightarrow>
             scan root text (i + 1)
               (matches @ [\<lparr>start = int i, end' = lm_end lastMatch,
                            word_m = lm_word lastMatch,
                            replacement_m = lm_replacement lastMatch\<rparr>]))
      else matches)"
  by pat_completeness auto
termination
  by (relation "measure (\<lambda>(root, text, i, matches). length text - i)") auto

declare scan.simps [simp del]

text \<open>
  The comparator handed to \<open>Array.prototype.sort\<close>, and the sort itself: the
  language guarantees a stable sort, which for a consistent comparator is the
  result of stable insertion.
\<close>

definition compareMatches :: "Match \<Rightarrow> Match \<Rightarrow> int" where
  "compareMatches a b =
     (if start a \<noteq> start b then start a - start b
      else end' b - start b - (end' a - start a))"

fun insertSorted :: "('a \<Rightarrow> 'a \<Rightarrow> int) \<Rightarrow> 'a \<Rightarrow> 'a list \<Rightarrow> 'a list" where
  "insertSorted cmp x [] = [x]"
| "insertSorted cmp x (y # ys) =
     (if cmp x y \<le> 0 then x # y # ys else y # insertSorted cmp x ys)"

definition stableSort :: "('a \<Rightarrow> 'a \<Rightarrow> int) \<Rightarrow> 'a list \<Rightarrow> 'a list" where
  "stableSort cmp xs = foldr (insertSorted cmp) xs []"

text \<open>The sweep of \<open>removeOverlappingMatches\<close> with its \<open>lastEnd\<close> cursor.\<close>

fun sweep :: "int \<Rightarrow> Match list \<Rightarrow> Match list" where
  "sweep lastEnd [] = []"
| "sweep lastEnd (m # rest) =
     (if start m \<ge> lastEnd then m # sweep (end' m) rest
      else sweep lastEnd rest)"

definition Trie_removeOverlappingMatches :: "Match list \<Rightarrow> Match list" where
  "Trie_removeOverlappingMatches matches =
     (if length matches = 0 then []
      else sweep (- 1) (stableSort compareMatches matches))"

definition Trie_findAllMatches :: "TrieNode \<Rightarrow> jsstring \<Rightarrow> Match list" where
  "Trie_findAllMatches root text = Trie_removeOverlappingMatches (scan root text 0 [])"

text \<open>\<open>search\<close> and \<open>getReplacement\<close> descend along the code points of the word.\<close>

fun descend :: "TrieNode \<Rightarrow> jsstring list \<Rightarrow> TrieNode option" where
  "descend current [] = Some current"
| "descend current (char # chars) =
     (case children current char of
        None \<Rightarrow> None
      | Some c \<Rightarrow> descend c chars)"

definition Trie_search :: "TrieNode \<Rightarrow> jsstring \<Rightarrow> bool" where
  "Trie_search root w =
     (case descend root (codePoints w) of
        None \<Rightarrow> False
      | Some current \<Rightarrow> isEndOfWord current)"

definition Trie_getReplacement :: "TrieNode \<Rightarrow> jsstring \<Rightarrow> jsstring option" where
  "Trie_getReplacement root w =
     (case descend root (codePoints w) of
        None \<Rightarrow> None
      | Some current \<Rightarrow>
          (if isEndOfWord current \<and> truthy (replacement current)
           then replacement current else None))"

section \<open>The dictionary and the notions the properties of the matcher are stated in\<close>

text \<open>
  \<open>ForeignWordPlugin\<close> builds its trie by inserting the entries of the dictionary in
  order into a new trie.
\<close>

definition buildForeignWordTrie :: "(jsstring \<times> jsstring) list \<Rightarrow> TrieNode" where
  "buildForeignWordTrie foreignWordsData =
     foldl (\<lambda>trie fw. Trie_insert trie (fst fw) (snd fw)) createNode foreignWordsData"

text \<open>
  A term occurs in the text at offset \<open>i\<close>; a term of the dictionary is the longest
  one that occurs at offset \<open>i\<close>.
\<close>

definition matchesAt :: "jsstring \<Rightarrow> jsstring \<Rightarrow> nat \<Rightarrow> bool" where
  "matchesAt w text i = (w \<noteq> [] \<and> take (length w) (drop i text) = w)"

definition longestTermAt ::
  "(jsstring \<times> jsstring) list \<Rightarrow> jsstring \<Rightarrow> nat \<Rightarrow> jsstring \<Rightarrow> bool" where
  "longestTermAt foreignWordsData text i w =
     (w \<in> fst ` set foreignWordsData \<and> matchesAt w text i \<and>
      (\<forall>w' \<in> fst ` set foreignWordsData. matchesAt w' text i \<longrightarrow> length w' \<le> length w))"

text \<open>
  The keys \<open>findAllMatches\<close> looks up along a piece of text: one key per code unit.
  A term is stored under these keys when none of its code points is a surrogate
  pair, that is when \<open>codePoints w = units w\<close>.
\<close>

definition units :: "jsstring \<Rightarrow> jsstring list" where
  "units s = map (\<lambda>u. [u]) s"

text \<open>The test under which the inner loop records a node as the last match.\<close>

definition accepted :: "TrieNode \<Rightarrow> bool" where
  "accepted n = (isEndOfWord n \<and> truthy (word n) \<and> truthy (replacement n))"

text \<open>Following the text from offset \<open>j\<close> up to offset \<open>e\<close> leads from one node to another.\<close>

definition reaches :: "TrieNode \<Rightarrow> jsstring \<Rightarrow> nat \<Rightarrow> nat \<Rightarrow> TrieNode \<Rightarrow> bool" where
  "reaches current text j e n = (descend current (units (take (e - j) (drop j text))) = Some n)"

definition payloadOf :: "TrieNode \<Rightarrow> bool \<times> jsstring option \<times> jsstring option" where
  "payloadOf n = (isEndOfWord n, word n, replacement n)"

text \<open>What one round of the outer loop appends to \<open>matches\<close>.\<close>

definition candidateAt :: "TrieNode \<Rightarrow> jsstring \<Rightarrow> nat \<Rightarrow> Match list" where
  "candidateAt root text i =
     (case walk text root i None of
        None \<Rightarrow> []
      | Some lastMatch \<Rightarrow>
          [\<lparr>start = int i, end' = lm_end lastMatch, word_m = lm_word lastMatch,
            replacement_m = lm_replacement lastMatch\<rparr>])"

section \<open>The document tree seen by the span transforms\<close>

text \<open>
  Modelled from the spec: the host editor's tree access interface (text content of
  a leaf, \<open>splitText\<close>, \<open>replace\<close>, \<open>getNextSibling\<close>) is a library the
  repository imports, not code under its sources. The spec gives it as: split a
  text leaf at a character offset into two sibling leaves; replace a node with
  another node. Nodes are held by reference in the source, so the model keeps a
  node map from keys to nodes, the ordered keys of the children of the parent the
  transform works under, and the next unused key. A node that was replaced stays
  in the node map (a reference to it still reads its text) but is no child any
  more.
\<close>

type_synonym NodeKey = nat

datatype LexicalNode =
    TextNode jsstring
  | ForeignWordNode jsstring jsstring
  | OtherNode

record EditorState =
  nodeMap :: "NodeKey \<Rightarrow> LexicalNode option"
  siblings :: "NodeKey list"
  nextKey :: NodeKey

text \<open>\<open>node instanceof TextNode\<close>: \<open>ForeignWordNode\<close> extends \<open>TextNode\<close>.\<close>

fun isTextNode :: "LexicalNode option \<Rightarrow> bool" where
  "isTextNode (Some (TextNode t)) = True"
| "isTextNode (Some (ForeignWordNode t r)) = True"
| "isTextNode _ = False"

fun isForeignWordNode :: "LexicalNode option \<Rightarrow> bool" where
  "isForeignWordNode (Some (ForeignWordNode t r)) = True"
| "isForeignWordNode _ = False"

text \<open>
  Reading the text through a reference. The result is \<open>None\<close> where the
  reference holds no text node, where the source would fail on the call.
\<close>

definition getTextContent :: "EditorState \<Rightarrow> NodeKey \<Rightarrow> jsstring option" where
  "getTextContent st key =
     (case nodeMap st key of
        Some (TextNode t) \<Rightarrow> Some t
      | Some (ForeignWordNode t r) \<Rightarrow> Some t
      | _ \<Rightarrow> None)"

fun insertAfter :: "NodeKey \<Rightarrow> NodeKey \<Rightarrow> NodeKey list \<Rightarrow> NodeKey list" where
  "insertAfter key new [] = []"
| "insertAfter key new (k # ks) =
     (if k = key then k # new # ks else k # insertAfter key new ks)"

text \<open>
  \<open>node.splitText(offset)\<close> with the offset strictly inside the text: the node keeps
  the part before the offset, a new plain text node with the rest becomes its next
  sibling, and the pair (before, after) is returned. With any other offset the host
  returns fewer than two parts and the second name of the destructuring is
  undefined; there, and for a node that is no child of the parent, the model has no
  result.
\<close>

definition splitText ::
  "EditorState \<Rightarrow> NodeKey \<Rightarrow> int \<Rightarrow> (NodeKey \<times> NodeKey \<times> EditorState) option" where
  "splitText st key offset =
     (case getTextContent st key of
        None \<Rightarrow> None
      | Some t \<Rightarrow>
          if 0 < offset \<and> offset < int (length t) \<and> key \<in> set (siblings st) then
            let first = take (nat offset) t;
                rest = drop (nat offset) t;
                kept = (case nodeMap st key of
                          Some (ForeignWordNode t' r) \<Rightarrow> ForeignWordNode first r
                        | _ \<Rightarrow> TextNode first);
                new = nextKey st
            in Some (key, new,
                 \<lparr>nodeMap = (nodeMap st)(key \<mapsto> kept, new \<mapsto> TextNode rest),
                  siblings = insertAfter key new (siblings st),
                  nextKey = new + 1\<rparr>)
          else None)"

text \<open>
  \<open>node.replace(other)\<close>: the new node takes the place of the old one among the
  children. Replacing a node that has no parent fails in the host.
\<close>

definition replace :: "EditorState \<Rightarrow> NodeKey \<Rightarrow> LexicalNode \<Rightarrow> EditorState option" where
  "replace st key node =
     (if key \<in> set (siblings st) then
        let new = nextKey st
        in Some \<lparr>nodeMap = (nodeMap st)(new \<mapsto> node),
                 siblings = map (\<lambda>k. if k = key then new else k) (siblings st),
                 nextKey = new + 1\<rparr>
      else None)"

fun nextIn :: "NodeKey \<Rightarrow> NodeKey list \<Rightarrow> NodeKey option" where
  "nextIn key [] = None"
| "nextIn key [k] = None"
| "nextIn key (k # k' # ks) = (if k = key then Some k' else nextIn key (k' # ks))"

definition getNextSibling :: "EditorState \<Rightarrow> NodeKey \<Rightarrow> NodeKey option" where
  "getNextSibling st key = nextIn key (siblings st)"

text \<open>The children of the parent, in document order, as the nodes they are.\<close>

definition leaves :: "EditorState \<Rightarrow> LexicalNode option list" where
  "leaves st = map (nodeMap st) (siblings st)"

section \<open>ForeignWordPlugin: the two node transforms\<close>

text \<open>
  The transform registered for \<open>ForeignWordNode\<close>: a node whose text is no longer
  found by \<open>search\<close> is replaced by a plain text node with the same text.
\<close>

definition removeForeignWordTransform ::
  "TrieNode \<Rightarrow> EditorState \<Rightarrow> NodeKey \<Rightarrow> EditorState option" where
  "removeForeignWordTransform foreignWordTrie st node =
     (case getTextContent st node of
        None \<Rightarrow> None
      | Some t \<Rightarrow>
          if \<not> Trie_search foreignWordTrie t then replace st node (TextNode t)
          else Some st)"

text \<open>
  The body of the \<open>for\<close> loop of the transform registered for \<open>TextNode\<close>, for one
  match. The loop state is the tree, \<open>currentNode\<close> and \<open>processedLength\<close>.
\<close>

record LoopState =
  tree :: EditorState
  currentNode :: NodeKey
  processedLength :: int

definition startSplit :: "LoopState \<Rightarrow> int \<Rightarrow> (NodeKey \<times> LoopState) option" where
  "startSplit s relativeStart =
     (if relativeStart > 0 then
        (case splitText (tree s) (currentNode s) relativeStart of
           None \<Rightarrow> None
         | Some (beforeNode, afterNode, st') \<Rightarrow>
             (case getTextContent st' beforeNode of
                None \<Rightarrow> None
              | Some beforeText \<Rightarrow>
                  Some (afterNode, s\<lparr>tree := st',
                                 processedLength := processedLength s + int (length beforeText)\<rparr>)))
      else Some (currentNode s, s))"

definition endSplit :: "LoopState \<Rightarrow> NodeKey \<Rightarrow> int \<Rightarrow> (NodeKey \<times> LoopState) option" where
  "endSplit s targetNode matchLength =
     (case getTextContent (tree s) targetNode of
        None \<Rightarrow> None
      | Some targetText \<Rightarrow>
          if matchLength < int (length targetText) then
            (case splitText (tree s) targetNode matchLength of
               None \<Rightarrow> None
             | Some (matchPart, remaining, st') \<Rightarrow>
                 Some (matchPart, s\<lparr>tree := st', currentNode := remaining\<rparr>))
          else
            (case getNextSibling (tree s) targetNode of
               None \<Rightarrow> Some (targetNode, s)
             | Some nextSibling \<Rightarrow>
                 if isTextNode (nodeMap (tree s) nextSibling)
                 then Some (targetNode, s\<lparr>currentNode := nextSibling\<rparr>)
                 else Some (targetNode, s)))"

definition matchStep :: "Match \<Rightarrow> LoopState \<Rightarrow> LoopState option" where
  "matchStep match s =
     (let relativeStart = start match - processedLength s in
      case getTextContent (tree s) (currentNode s) of
        None \<Rightarrow> None
      | Some currentText \<Rightarrow>
          if relativeStart < 0 \<or> relativeStart \<ge> int (length currentText) then Some s
          else
            (case startSplit s relativeStart of
               None \<Rightarrow> None
             | Some (targetNode, s1) \<Rightarrow>
                 let matchLength = end' match - start match in
                 (case endSplit s1 targetNode matchLength of
                    None \<Rightarrow> None
                  | Some (targetNode', s2) \<Rightarrow>
                      (case replace (tree s2) targetNode'
                              (ForeignWordNode (word_m match) (replacement_m match)) of
                         None \<Rightarrow> None
                       | Some st' \<Rightarrow>
                           Some (s2\<lparr>tree := st',
                                    processedLength := processedLength s2 + matchLength\<rparr>)))))"

fun matchLoop :: "Match list \<Rightarrow> LoopState \<Rightarrow> LoopState option" where
  "matchLoop [] s = Some s"
| "matchLoop (match # matches) s =
     (case matchStep match s of
        None \<Rightarrow> None
      | Some s' \<Rightarrow> matchLoop matches s')"

definition removeTextNodeTransform ::
  "TrieNode \<Rightarrow> EditorState \<Rightarrow> NodeKey \<Rightarrow> EditorState option" where
  "removeTextNodeTransform foreignWordTrie st textNode =
     (if isForeignWordNode (nodeMap st textNode) then Some st
      else
        (case getTextContent st textNode of
           None \<Rightarrow> None
         | Some t \<Rightarrow>
             if length t = 0 then Some st
             else
               let matches = Trie_findAllMatches foreignWordTrie t in
               if length matches = 0 then Some st
               else map_option tree
                      (matchLoop matches
                         \<lparr>tree = st, currentNode = textNode, processedLength = 0\<rparr>)))"

text \<open>
  Modelled from the spec: the host runs the registered transform on the nodes of
  its type; "for each existing AnnotatedSpanNode" is one run of the reverse
  transform over the children that are \<open>ForeignWordNode\<close>s.
\<close>

fun reversePassOver :: "TrieNode \<Rightarrow> NodeKey list \<Rightarrow> EditorState \<Rightarrow> EditorState option" where
  "reversePassOver foreignWordTrie [] st = Some st"
| "reversePassOver foreignWordTrie (k # ks) st =
     (if isForeignWordNode (nodeMap st k) then
        (case removeForeignWordTransform foreignWordTrie st k of
           None \<Rightarrow> None
         | Some st' \<Rightarrow> reversePassOver foreignWordTrie ks st')
      else reversePassOver foreignWordTrie ks st)"

definition reversePass :: "TrieNode \<Rightarrow> EditorState \<Rightarrow> EditorState option" where
  "reversePass foreignWordTrie st = reversePassOver foreignWordTrie (siblings st) st"

text \<open>
  What the reverse transform is to do to one leaf, in the spec's words: an annotated
  span whose text \<open>search\<close> no longer finds becomes a plain text node with the same
  text; every other leaf stays.
\<close>

fun selfHealed :: "TrieNode \<Rightarrow> LexicalNode option \<Rightarrow> LexicalNode option" where
  "selfHealed foreignWordTrie (Some (ForeignWordNode t r)) =
     (if Trie_search foreignWordTrie t then Some (ForeignWordNode t r)
      else Some (TextNode t))"
| "selfHealed foreignWordTrie n = n"

text \<open>
  The children of one parent are distinct nodes, and every key in use is below the
  next unused key.
\<close>

definition wellFormed :: "EditorState \<Rightarrow> bool" where
  "wellFormed st =
     (distinct (siblings st) \<and> (\<forall>k \<in> set (siblings st). k < nextKey st))"

section \<open>ForeignAndRefineWordPlugin: the lifecycle tracker\<close>

text \<open>
  A \<open>Set<string>\<close> keeps its elements in insertion order, and a \<open>for ... of\<close> over
  it visits each element once in that order: a list without repetitions.
\<close>

type_synonym WordIdSet = "jsstring list"

definition Set_has :: "WordIdSet \<Rightarrow> jsstring \<Rightarrow> bool" where
  "Set_has s x = (x \<in> set s)"

definition Set_add :: "WordIdSet \<Rightarrow> jsstring \<Rightarrow> WordIdSet" where
  "Set_add s x = (if Set_has s x then s else s @ [x])"

text \<open>
  Modelled from the spec: the snapshots are the host's editor states. The spec's
  tree access interface enumerates all leaf text nodes and their structural parent
  and reads a string attribute keyed by name on an element node. A snapshot is the
  tree under its root; an element may or may not offer \<open>getAttribute\<close>.
\<close>

datatype DocNode =
    TextLeaf jsstring
  | ElementNode "(jsstring \<Rightarrow> jsstring option) option" "DocNode list"

text \<open>\<open>getAllTextNodes\<close>, each leaf paired with its \<open>getParent()\<close>.\<close>

fun textNodesUnder :: "DocNode \<Rightarrow> DocNode \<Rightarrow> (DocNode \<times> DocNode) list" where
  "textNodesUnder parent (TextLeaf t) = [(TextLeaf t, parent)]"
| "textNodesUnder parent (ElementNode attrs cs) =
     concat (map (textNodesUnder (ElementNode attrs cs)) cs)"

fun getAllTextNodes :: "DocNode \<Rightarrow> (DocNode \<times> DocNode) list" where
  "getAllTextNodes (TextLeaf t) = []"
| "getAllTextNodes (ElementNode attrs cs) =
     concat (map (textNodesUnder (ElementNode attrs cs)) cs)"

fun getNodeAttribute :: "DocNode \<Rightarrow> jsstring \<Rightarrow> jsstring option" where
  "getNodeAttribute (TextLeaf t) attributeName = None"
| "getNodeAttribute (ElementNode None cs) attributeName = None"
| "getNodeAttribute (ElementNode (Some getAttribute) cs) attributeName =
     getAttribute attributeName"

fun collectLoop :: "jsstring \<Rightarrow> (DocNode \<times> DocNode) list \<Rightarrow> WordIdSet \<Rightarrow> WordIdSet" where
  "collectLoop attributeName [] ids = ids"
| "collectLoop attributeName ((textNode, parent) # nodes) ids =
     (let id' = getNodeAttribute parent attributeName in
      if truthy id' then collectLoop attributeName nodes (Set_add ids (the id'))
      else collectLoop attributeName nodes ids)"

definition collectWordIds :: "DocNode \<Rightarrow> jsstring \<Rightarrow> WordIdSet" where
  "collectWordIds root attributeName =
     collectLoop attributeName (getAllTextNodes root) []"

fun deletedLoop :: "WordIdSet \<Rightarrow> WordIdSet \<Rightarrow> WordIdSet \<Rightarrow> WordIdSet" where
  "deletedLoop [] currentIds deletedIds = deletedIds"
| "deletedLoop (id' # previousIds) currentIds deletedIds =
     (if \<not> Set_has currentIds id'
      then deletedLoop previousIds currentIds (Set_add deletedIds id')
      else deletedLoop previousIds currentIds deletedIds)"

definition findDeletedWordIds :: "WordIdSet \<Rightarrow> WordIdSet \<Rightarrow> WordIdSet" where
  "findDeletedWordIds previousIds currentIds = deletedLoop previousIds currentIds []"

text \<open>
  \<open>handleEditorUpdate\<close>: the result is the sequence of calls of \<open>onWordDeleted\<close>,
  each call given by its argument.
\<close>

definition handleEditorUpdate :: "DocNode \<Rightarrow> DocNode \<Rightarrow> jsstring \<Rightarrow> jsstring list" where
  "handleEditorUpdate editorState prevEditorState attributeName =
     (let previousIds = collectWordIds prevEditorState attributeName;
          currentIds = collectWordIds editorState attributeName;
          deletedIds = findDeletedWordIds previousIds currentIds
      in deletedIds)"

text \<open>
  The ids of a snapshot in the spec's words, written without the functions above:
  the values, other than null, of the attribute on every element that is the
  parent of a text leaf.
\<close>

fun isTextLeaf :: "DocNode \<Rightarrow> bool" where
  "isTextLeaf (TextLeaf t) = True"
| "isTextLeaf (ElementNode attrs cs) = False"

fun attributeValuesIn :: "jsstring \<Rightarrow> DocNode \<Rightarrow> jsstring set" where
  "attributeValuesIn a (TextLeaf t) = {}"
| "attributeValuesIn a (ElementNode attrs cs) =
     (if \<exists>c \<in> set cs. isTextLeaf c
      then (case attrs of
              None \<Rightarrow> {}
            | Some getAttribute \<Rightarrow>
                (case getAttribute a of None \<Rightarrow> {} | Some v \<Rightarrow> {v}))
      else {})
     \<union> (\<Union>c \<in> set cs. attributeValuesIn a c)"

section \<open>DataUniqueAttributePlugin: the block identifier assigner\<close>

text \<open>
  A top-level child of the root is an element node, whose \<open>__dom\<close> is an element
  with attributes or is missing, or it is no element node.
\<close>

datatype BlockNode =
    ElementBlock "(jsstring \<Rightarrow> jsstring option) option"
  | NonElementBlock

definition DATA_UNIQUE_ATTRIBUTE :: jsstring where
  "DATA_UNIQUE_ATTRIBUTE = js ''data-unique''"

definition Prefix_UNIQUE :: jsstring where
  "Prefix_UNIQUE = js ''unique''"

text \<open>
  \<open>Date.now()\<close> and \<open>Math.random().toString(36).slice(2, 11)\<close> are read from the
  environment: the \<open>n\<close>-th call of \<open>generateUniqueId\<close> sees the texts \<open>now n\<close> and
  \<open>random36 n\<close>.
\<close>

record Env =
  now :: "nat \<Rightarrow> jsstring"
  random36 :: "nat \<Rightarrow> jsstring"

definition generateUniqueId :: "Env \<Rightarrow> nat \<Rightarrow> jsstring \<Rightarrow> jsstring" where
  "generateUniqueId env n prefix' = prefix' @ js ''-'' @ now env n @ js ''-'' @ random36 env n"

fun getNodeDOMElement :: "BlockNode \<Rightarrow> (jsstring \<Rightarrow> jsstring option) option" where
  "getNodeDOMElement NonElementBlock = None"
| "getNodeDOMElement (ElementBlock dom') = dom'"

definition getUniqueAttributeValue :: "BlockNode \<Rightarrow> jsstring option" where
  "getUniqueAttributeValue node =
     (case getNodeDOMElement node of
        None \<Rightarrow> None
      | Some dom' \<Rightarrow> dom' DATA_UNIQUE_ATTRIBUTE)"

definition setUniqueAttributeValue :: "BlockNode \<Rightarrow> jsstring \<Rightarrow> bool \<times> BlockNode" where
  "setUniqueAttributeValue node v =
     (case getNodeDOMElement node of
        None \<Rightarrow> (False, node)
      | Some dom' \<Rightarrow> (True, ElementBlock (Some (dom'(DATA_UNIQUE_ATTRIBUTE \<mapsto> v)))))"

fun collectExistingLoop :: "BlockNode list \<Rightarrow> WordIdSet \<Rightarrow> WordIdSet" where
  "collectExistingLoop [] values = values"
| "collectExistingLoop (child # rest) values =
     (let v = getUniqueAttributeValue child in
      if truthy v then collectExistingLoop rest (Set_add values (the v))
      else collectExistingLoop rest values)"

definition collectExistingUniqueValues :: "BlockNode list \<Rightarrow> WordIdSet" where
  "collectExistingUniqueValues rootChildren = collectExistingLoop rootChildren []"

text \<open>
  The state a pass threads through its calls: the set \<open>existingValues\<close> and the
  number of calls of \<open>generateUniqueId\<close> made so far.
\<close>

record PassState =
  existingValues :: WordIdSet
  calls :: nat

definition assignUniqueAttributeIfNeeded ::
  "Env \<Rightarrow> BlockNode \<Rightarrow> PassState \<Rightarrow> bool \<times> BlockNode \<times> PassState" where
  "assignUniqueAttributeIfNeeded env node ps =
     (case node of
        NonElementBlock \<Rightarrow> (False, node, ps)
      | ElementBlock dom' \<Rightarrow>
          let currentValue = getUniqueAttributeValue node in
          if truthy currentValue \<and> \<not> Set_has (existingValues ps) (the currentValue) then
            (False, node, ps\<lparr>existingValues := Set_add (existingValues ps) (the currentValue)\<rparr>)
          else
            let newValue = generateUniqueId env (calls ps) Prefix_UNIQUE;
                (success, node') = setUniqueAttributeValue node newValue;
                ps' = ps\<lparr>calls := calls ps + 1\<rparr>
            in if success
               then (success, node', ps'\<lparr>existingValues := Set_add (existingValues ps') newValue\<rparr>)
               else (success, node', ps'))"

fun assignLoop :: "Env \<Rightarrow> BlockNode list \<Rightarrow> PassState \<Rightarrow> BlockNode list \<times> PassState" where
  "assignLoop env [] ps = ([], ps)"
| "assignLoop env (child # rest) ps =
     (case assignUniqueAttributeIfNeeded env child ps of
        (assigned, child', ps') \<Rightarrow>
          (case assignLoop env rest ps' of
             (rest', ps'') \<Rightarrow> (child' # rest', ps'')))"

text \<open>
  \<open>processAllRootChildren\<close>, started when \<open>n\<close> identifiers have been generated
  before: the children of the root after the pass, and the state the pass ends in.
\<close>

definition processAllRootChildren :: "Env \<Rightarrow> nat \<Rightarrow> BlockNode list \<Rightarrow> BlockNode list \<times> PassState" where
  "processAllRootChildren env n rootChildren =
     (let existing = collectExistingUniqueValues rootChildren
      in assignLoop env rootChildren \<lparr>existingValues = existing, calls = n\<rparr>)"


section \<open>Properties of the matcher\<close>

subsection \<open>The sweep yields non-overlapping matches\<close>

lemma sweep_head: "sweep lastEnd ms = m # r \<Longrightarrow> lastEnd \<le> start m"
  by (induction ms arbitrary: lastEnd) (auto split: if_splits)

lemma sweep_successively:
  "successively (\<lambda>a b. end' a \<le> start b) (sweep lastEnd ms)"
proof (induction ms arbitrary: lastEnd)
  case Nil
  show ?case by simp
next
  case (Cons m ms)
  show ?case
  proof (cases "start m \<ge> lastEnd")
    case True
    have "successively (\<lambda>a b. end' a \<le> start b) (m # sweep (end' m) ms)"
    proof (cases "sweep (end' m) ms")
      case Nil
      then show ?thesis by simp
    next
      case (Cons m' r)
      from sweep_head [OF Cons] have "end' m \<le> start m'" .
      moreover have "successively (\<lambda>a b. end' a \<le> start b) (m' # r)"
        using Cons.IH [of "end' m"] Cons by simp
      ultimately show ?thesis using Cons by simp
    qed
    with True show ?thesis by simp
  next
    case False
    then show ?thesis using Cons.IH [of lastEnd] by simp
  qed
qed

subsection \<open>Offsets of the candidates and of the returned matches\<close>

lemma set_sweep: "set (sweep lastEnd ms) \<subseteq> set ms"
  by (induction ms arbitrary: lastEnd) auto

lemma set_insertSorted: "set (insertSorted cmp x xs) = insert x (set xs)"
  by (induction xs) auto

lemma set_stableSort: "set (stableSort cmp xs) = set xs"
  unfolding stableSort_def by (induction xs) (simp_all add: set_insertSorted)

lemma set_removeOverlapping: "set (Trie_removeOverlappingMatches ms) \<subseteq> set ms"
  unfolding Trie_removeOverlappingMatches_def
  using set_sweep [of "- 1" "stableSort compareMatches ms"] by (simp add: set_stableSort)

lemma walk_bounds:
  "walk text current j lastMatch = Some r \<Longrightarrow>
   lastMatch = Some r \<or> (int j < lm_end r \<and> lm_end r \<le> int (length text))"
proof (induction "text" current j lastMatch rule: walk.induct)
  case (1 t current j lastMatch)
  show ?case
  proof (cases "j < length t")
    case False
    with "1.prems" show ?thesis by (simp add: walk.simps)
  next
    case inb: True
    show ?thesis
    proof (cases "children current [t ! j]")
      case None
      with inb "1.prems" show ?thesis by (simp add: walk.simps)
    next
      case (Some nxt)
      let ?lm = "if isEndOfWord nxt \<and> truthy (word nxt) \<and> truthy (replacement nxt)
                then Some \<lparr>lm_end = int (j + 1), lm_word = the (word nxt),
                            lm_replacement = the (replacement nxt)\<rparr>
                else lastMatch"
      from inb Some "1.prems" have w: "walk t nxt (j + 1) ?lm = Some r"
        by (simp add: walk.simps)
      from "1.IH" [OF inb Some w]
      have "?lm = Some r \<or> (int (j + 1) < lm_end r \<and> lm_end r \<le> int (length t))" .
      then show ?thesis using inb by (auto split: if_splits)
    qed
  qed
qed

lemma scan_bounds:
  "\<forall>m \<in> set matches. 0 \<le> start m \<and> start m < end' m \<and> end' m \<le> int (length text) \<Longrightarrow>
   \<forall>m \<in> set (scan root text i matches). 0 \<le> start m \<and> start m < end' m \<and> end' m \<le> int (length text)"
proof (induction root "text" i matches rule: scan.induct)
  case (1 root t i matches)
  show ?case
  proof (cases "i < length t")
    case False
    with "1.prems" show ?thesis by (simp add: scan.simps)
  next
    case inb: True
    show ?thesis
    proof (cases "walk t root i None")
      case None
      from "1.IH"(1) [OF inb None "1.prems"] inb None show ?thesis
        by (simp add: scan.simps)
    next
      case (Some lastMatch)
      from walk_bounds [OF Some] have b: "int i < lm_end lastMatch" "lm_end lastMatch \<le> int (length t)"
        by simp_all
      let ?ms = "matches @ [\<lparr>start = int i, end' = lm_end lastMatch,
                            word_m = lm_word lastMatch,
                            replacement_m = lm_replacement lastMatch\<rparr>]"
      have "\<forall>m \<in> set ?ms. 0 \<le> start m \<and> start m < end' m \<and> end' m \<le> int (length t)"
        using "1.prems" b by auto
      from "1.IH"(2) [OF inb Some this] inb Some show ?thesis
        by (simp add: scan.simps)
    qed
  qed
qed

lemma matches_in_range:
  "\<forall>m \<in> set (Trie_findAllMatches root text).
     0 \<le> start m \<and> start m < end' m \<and> end' m \<le> int (length text)"
proof -
  have "\<forall>m \<in> set (scan root text 0 []). 0 \<le> start m \<and> start m < end' m \<and> end' m \<le> int (length text)"
    by (rule scan_bounds) simp
  then show ?thesis
    unfolding Trie_findAllMatches_def using set_removeOverlapping by blast
qed

text \<open>
  C1. For every trie and every input text, the matches returned by
  \<open>findAllMatches\<close> do not overlap: in the returned order, each match ends at or
  before the offset where the next one starts; and, the matches being non-empty,
  each match ends at or before the start of every later one.
\<close>

theorem findAllMatches_non_overlapping:
  "successively (\<lambda>a b. end' a \<le> start b) (Trie_findAllMatches root text)
   \<and> sorted_wrt (\<lambda>a b. end' a \<le> start b) (Trie_findAllMatches root text)"
proof -
  let ?r = "Trie_findAllMatches root text"
  have adj: "successively (\<lambda>a b. end' a \<le> start b) ?r"
    unfolding Trie_findAllMatches_def Trie_removeOverlappingMatches_def
    by (simp add: sweep_successively)
  have "successively (\<lambda>a b. end' a \<le> start b) ?r \<longleftrightarrow> sorted_wrt (\<lambda>a b. end' a \<le> start b) ?r"
  proof (rule successively_iff_sorted_wrt_strong)
    fix x y z
    assume "y \<in> set ?r" and xy: "end' x \<le> start y" and yz: "end' y \<le> start z"
    with matches_in_range [of root "text"] have "start y < end' y" by blast
    with xy yz show "end' x \<le> start z" by simp
  qed
  with adj show ?thesis by simp
qed

subsection \<open>Evaluation on concrete dictionaries\<close>

lemmas matcher_eval =
  js_def Trie_findAllMatches_def Trie_insert_def walk.simps scan.simps createNode_def
  isHighSurrogate_def isLowSurrogate_def Trie_removeOverlappingMatches_def stableSort_def
  compareMatches_def Trie_search_def

text \<open>
  C3. With the terms \<open>bb\<close> and \<open>bc\<close> in the trie and the text \<open>abbc\<close>, the scan
  records the candidates \<open>bb\<close> at [1,3) and \<open>bc\<close> at [2,4); the sweep accepts the
  first, which moves \<open>lastEnd\<close> to 3, and drops the second, whose start is 2. Only
  the match of \<open>bb\<close> is returned.
\<close>

theorem earliest_start_wins:
  "scan (Trie_insert (Trie_insert createNode (js ''bb'') (js ''1'')) (js ''bc'') (js ''2''))
     (js ''abbc'') 0 []
   = [\<lparr>start = 1, end' = 3, word_m = js ''bb'', replacement_m = js ''1''\<rparr>,
      \<lparr>start = 2, end' = 4, word_m = js ''bc'', replacement_m = js ''2''\<rparr>]
   \<and>
   sweep (- 1)
     [\<lparr>start = 1, end' = 3, word_m = js ''bb'', replacement_m = js ''1''\<rparr>,
      \<lparr>start = 2, end' = 4, word_m = js ''bc'', replacement_m = js ''2''\<rparr>]
   = [\<lparr>start = 1, end' = 3, word_m = js ''bb'', replacement_m = js ''1''\<rparr>]
   \<and>
   Trie_findAllMatches
     (Trie_insert (Trie_insert createNode (js ''bb'') (js ''1'')) (js ''bc'') (js ''2''))
     (js ''abbc'')
   = [\<lparr>start = 1, end' = 3, word_m = js ''bb'', replacement_m = js ''1''\<rparr>]"
  by (simp add: matcher_eval)

subsection \<open>Malformed entries\<close>

text \<open>
  C10, as the code has it. \<open>insert\<close> takes every term: the empty term marks the root
  as the end of a word, and \<open>search\<close> then finds it.
\<close>

theorem empty_term_is_accepted:
  "isEndOfWord (Trie_insert createNode [] (js ''x''))
   \<and> word (Trie_insert createNode [] (js ''x'')) = Some []
   \<and> Trie_search (Trie_insert createNode [] (js ''x'')) []
   \<and> Trie_search (buildForeignWordTrie [([], js ''x''), (js ''ab'', js ''y'')]) []
   \<and> Trie_findAllMatches (buildForeignWordTrie [([], js ''x''), (js ''ab'', js ''y'')]) (js ''ab'')
     = [\<lparr>start = 0, end' = 2, word_m = js ''ab'', replacement_m = js ''y''\<rparr>]"
  by (simp add: matcher_eval buildForeignWordTrie_def)

text \<open>
  C10, the part that holds: whatever the trie contains, every match returned by
  \<open>findAllMatches\<close> lies inside the text and is not empty, because a match is
  recorded only after an edge has been followed.
\<close>

theorem findAllMatches_bounds:
  "\<forall>m \<in> set (Trie_findAllMatches root text).
     0 \<le> start m \<and> start m < end' m \<and> end' m \<le> int (length text)"
  by (rule matches_in_range)

theorem findAllMatches_bounds_witness:
  "Trie_findAllMatches
     (Trie_insert (Trie_insert createNode [] (js ''x'')) (js ''ab'') (js ''y'')) (js ''ab'')
   = [\<lparr>start = 0, end' = 2, word_m = js ''ab'', replacement_m = js ''y''\<rparr>]
   \<and> (0::int) \<le> 0 \<and> (0::int) < 2 \<and> (2::int) \<le> int (length (js ''ab''))"
  using findAllMatches_bounds
    [of "Trie_insert (Trie_insert createNode [] (js ''x'')) (js ''ab'') (js ''y'')" "js ''ab''"]
  by (simp add: matcher_eval)

subsection \<open>The trie built from a dictionary\<close>

lemma payloadOf_TrieNode [simp]: "payloadOf (TrieNode c e w r) = (e, w, r)"
  by (simp add: payloadOf_def)

lemma payloadOf_sel: "payloadOf n = (isEndOfWord n, word n, replacement n)"
  by (simp add: payloadOf_def)

lemma descend_createNode:
  "descend createNode ks = (if ks = [] then Some createNode else None)"
  by (cases ks) (simp_all add: createNode_def)

lemma payloadOf_createNode: "payloadOf createNode = (False, None, None)"
  by (simp add: payloadOf_def createNode_def)

lemma descend_insertFrom:
  "map_option payloadOf (descend (insertFrom t ks w r) ks') =
     (if ks' = ks then Some (True, Some w, Some r)
      else if prefix ks' ks
        then Some (case descend t ks' of None \<Rightarrow> (False, None, None) | Some n \<Rightarrow> payloadOf n)
      else map_option payloadOf (descend t ks'))"
proof (induction ks arbitrary: t ks')
  case Nil
  show ?case by (cases ks') simp_all
next
  case (Cons k ks)
  show ?case
  proof (cases ks')
    case Nil
    then show ?thesis by (simp add: payloadOf_sel Let_def)
  next
    case (Cons c cs)
    show ?thesis
    proof (cases "c = k")
      case False
      with Cons show ?thesis by (simp add: Let_def)
    next
      case True
      show ?thesis
      proof (cases "children t k")
        case None
        with True Cons Cons.IH [of createNode cs] show ?thesis
          by (auto simp: Let_def descend_createNode payloadOf_createNode split: if_splits)
      next
        case (Some ch)
        with True Cons Cons.IH [of ch cs] show ?thesis
          by (auto simp: Let_def)
      qed
    qed
  qed
qed

lemma build_snoc:
  "buildForeignWordTrie (es @ [(w, r)]) = Trie_insert (buildForeignWordTrie es) w r"
  by (simp add: buildForeignWordTrie_def)

lemma concat_codePoints: "concat (codePoints w) = w"
  by (induction w rule: codePoints.induct) auto

lemma codePoints_inj: "codePoints w = codePoints w' \<Longrightarrow> w = w'"
  by (metis concat_codePoints)

lemma descend_build:
  "map_option payloadOf (descend (buildForeignWordTrie es) ks) =
     (case find (\<lambda>fw. codePoints (fst fw) = ks) (rev es) of
        Some fw \<Rightarrow> Some (True, Some (fst fw), Some (snd fw))
      | None \<Rightarrow>
          if ks = [] \<or> (\<exists>fw \<in> set es. prefix ks (codePoints (fst fw)))
          then Some (False, None, None) else None)"
proof (induction es arbitrary: ks rule: rev_induct)
  case Nil
  show ?case
    by (simp add: buildForeignWordTrie_def descend_createNode payloadOf_createNode)
next
  case (snoc e es)
  obtain w r where e: "e = (w, r)" by (cases e)
  let ?old = "buildForeignWordTrie es"
  have step: "map_option payloadOf (descend (buildForeignWordTrie (es @ [e])) ks) =
     (if ks = codePoints w then Some (True, Some w, Some r)
      else if prefix ks (codePoints w)
        then Some (case descend ?old ks of None \<Rightarrow> (False, None, None) | Some n \<Rightarrow> payloadOf n)
      else map_option payloadOf (descend ?old ks))"
    unfolding e build_snoc Trie_insert_def by (rule descend_insertFrom)
  show ?case
  proof (cases "ks = codePoints w")
    case True
    with step e show ?thesis by simp
  next
    case neq: False
    show ?thesis
    proof (cases "prefix ks (codePoints w)")
      case True
      show ?thesis
      proof (cases "find (\<lambda>fw. codePoints (fst fw) = ks) (rev es)")
        case None
        with snoc.IH [of ks] have "descend ?old ks = None \<or>
            (\<exists>n. descend ?old ks = Some n \<and> payloadOf n = (False, None, None))"
          by (auto split: if_splits)
        with step neq True None e show ?thesis by auto
      next
        case (Some fw)
        with snoc.IH [of ks] obtain n where "descend ?old ks = Some n"
          "payloadOf n = (True, Some (fst fw), Some (snd fw))" by auto
        with step neq True Some e show ?thesis by auto
      qed
    next
      case False
      then have "ks \<noteq> []" by auto
      with step neq False e snoc.IH [of ks] show ?thesis
        by (auto split: option.splits)
    qed
  qed
qed

lemma find_last_entry:
  "find (\<lambda>fw. codePoints (fst fw) = codePoints w) xs = map_option (Pair w) (map_of xs w)"
proof (induction xs)
  case Nil
  show ?case by simp
next
  case (Cons x xs)
  obtain w' r' where x: "x = (w', r')" by (cases x)
  show ?case using Cons x by (auto dest: codePoints_inj)
qed

subsection \<open>The inner loop records the deepest accepted node\<close>

lemma reaches_step:
  assumes "j < length text" and "j < e"
  shows "reaches current text j e n =
           (\<exists>nxt. children current [text ! j] = Some nxt \<and> reaches nxt text (j + 1) e n)"
proof -
  from assms obtain d where d: "e - j = Suc d" "e - (j + 1) = d"
    by (cases "e - j") auto
  from assms have "drop j text = text ! j # drop (j + 1) text"
    by (simp add: Cons_nth_drop_Suc)
  with d show ?thesis
    by (auto simp: reaches_def units_def split: option.splits)
qed

lemma reaches_self: "reaches current text j j n = (n = current)"
  by (auto simp: reaches_def units_def)

lemma walk_cases:
  "(\<exists>e n. j < e \<and> e \<le> length text \<and> reaches current text j e n \<and> accepted n
      \<and> walk text current j lastMatch =
          Some \<lparr>lm_end = int e, lm_word = the (word n), lm_replacement = the (replacement n)\<rparr>
      \<and> (\<forall>e' n'. e < e' \<and> e' \<le> length text \<and> reaches current text j e' n' \<longrightarrow> \<not> accepted n'))
   \<or> (walk text current j lastMatch = lastMatch
      \<and> (\<forall>e' n'. j < e' \<and> e' \<le> length text \<and> reaches current text j e' n' \<longrightarrow> \<not> accepted n'))"
proof (induction "text" current j lastMatch rule: walk.induct)
  case (1 t current j lastMatch)
  show ?case
  proof (cases "j < length t")
    case False
    then have "walk t current j lastMatch = lastMatch" by (simp add: walk.simps)
    moreover from False
    have "\<forall>e' n'. j < e' \<and> e' \<le> length t \<and> reaches current t j e' n' \<longrightarrow> \<not> accepted n'"
      by auto
    ultimately show ?thesis by blast
  next
    case inb: True
    show ?thesis
    proof (cases "children current [t ! j]")
      case None
      with inb have "walk t current j lastMatch = lastMatch" by (simp add: walk.simps)
      moreover have "\<forall>e' n'. j < e' \<and> e' \<le> length t \<and> reaches current t j e' n' \<longrightarrow> \<not> accepted n'"
        using None inb by (auto simp: reaches_step)
      ultimately show ?thesis by blast
    next
      case (Some nxt)
      let ?lm = "if isEndOfWord nxt \<and> truthy (word nxt) \<and> truthy (replacement nxt)
                then Some \<lparr>lm_end = int (j + 1), lm_word = the (word nxt),
                            lm_replacement = the (replacement nxt)\<rparr>
                else lastMatch"
      have w: "walk t current j lastMatch = walk t nxt (j + 1) ?lm"
        using inb Some by (subst walk.simps) simp
      have r: "\<And>e n. j < e \<Longrightarrow> reaches current t j e n = reaches nxt t (j + 1) e n"
        using inb Some by (simp add: reaches_step)
      from "1.IH" [OF inb Some] consider
        (deeper) e n where "j + 1 < e" "e \<le> length t" "reaches nxt t (j + 1) e n" "accepted n"
          "walk t nxt (j + 1) ?lm =
             Some \<lparr>lm_end = int e, lm_word = the (word n), lm_replacement = the (replacement n)\<rparr>"
          "\<forall>e' n'. e < e' \<and> e' \<le> length t \<and> reaches nxt t (j + 1) e' n' \<longrightarrow> \<not> accepted n'"
        | (none) "walk t nxt (j + 1) ?lm = ?lm"
          "\<forall>e' n'. j + 1 < e' \<and> e' \<le> length t \<and> reaches nxt t (j + 1) e' n' \<longrightarrow> \<not> accepted n'"
        by blast
      then show ?thesis
      proof cases
        case deeper
        have "j < e" using deeper(1) by simp
        moreover have "reaches current t j e n" using deeper(1,3) r by simp
        moreover have "\<forall>e' n'. e < e' \<and> e' \<le> length t \<and> reaches current t j e' n' \<longrightarrow> \<not> accepted n'"
          using deeper(1,6) r by auto
        ultimately show ?thesis using deeper(2,4,5) w by auto
      next
        case none
        have beyond: "\<forall>e' n'. j + 1 < e' \<and> e' \<le> length t \<and> reaches current t j e' n' \<longrightarrow> \<not> accepted n'"
          using none(2) r by auto
        have here: "reaches current t j (j + 1) n \<longleftrightarrow> n = nxt" for n
          using r [of "j + 1" n] by (simp add: reaches_self)
        show ?thesis
        proof (cases "accepted nxt")
          case True
          then have "?lm = Some \<lparr>lm_end = int (j + 1), lm_word = the (word nxt),
                    lm_replacement = the (replacement nxt)\<rparr>"
            by (simp add: accepted_def)
          with w none(1) have "walk t current j lastMatch =
              Some \<lparr>lm_end = int (j + 1), lm_word = the (word nxt),
                    lm_replacement = the (replacement nxt)\<rparr>"
            by simp
          moreover have "reaches current t j (j + 1) nxt" using here by simp
          ultimately show ?thesis using True inb beyond
            by (intro disjI1 exI [of _ "j + 1"] exI [of _ nxt]) auto
        next
          case False
          then have "?lm = lastMatch" by (auto simp: accepted_def)
          with w none(1) have "walk t current j lastMatch = lastMatch" by simp
          moreover have "\<forall>e' n'. j < e' \<and> e' \<le> length t \<and> reaches current t j e' n' \<longrightarrow> \<not> accepted n'"
          proof (intro allI impI)
            fix e' n' assume a: "j < e' \<and> e' \<le> length t \<and> reaches current t j e' n'"
            show "\<not> accepted n'"
            proof (cases "e' = j + 1")
              case True
              with a here False show ?thesis by simp
            next
              case False
              with a have "j + 1 < e'" by simp
              with a beyond show ?thesis by blast
            qed
          qed
          ultimately show ?thesis by blast
        qed
      qed
    qed
  qed
qed

subsection \<open>The candidate recorded at a start offset\<close>

lemma units_inj: "units a = units b \<Longrightarrow> a = b"
  unfolding units_def by (induction a arbitrary: b) auto

lemma units_Nil: "units s = [] \<longleftrightarrow> s = []"
  by (simp add: units_def)

text \<open>The terms without a surrogate pair are those stored under one-unit keys.\<close>

lemma codePoints_units_iff:
  "codePoints w = units w \<longleftrightarrow>
     (\<forall>i. Suc i < length w \<longrightarrow> \<not> (isHighSurrogate (w ! i) \<and> isLowSurrogate (w ! Suc i)))"
proof (induction w rule: codePoints.induct)
  case 1
  show ?case by (simp add: units_def)
next
  case (2 u)
  show ?case by (simp add: units_def)
next
  case (3 u v rest)
  show ?case
  proof (cases "isHighSurrogate u \<and> isLowSurrogate v")
    case True
    then have "codePoints (u # v # rest) \<noteq> units (u # v # rest)" by (simp add: units_def)
    moreover from True have "\<not> (\<forall>i. Suc i < length (u # v # rest) \<longrightarrow>
        \<not> (isHighSurrogate ((u # v # rest) ! i) \<and> isLowSurrogate ((u # v # rest) ! Suc i)))"
      by (auto intro: exI [of _ 0])
    ultimately show ?thesis by blast
  next
    case False
    then have "codePoints (u # v # rest) = units (u # v # rest)
        \<longleftrightarrow> codePoints (v # rest) = units (v # rest)"
      by (auto simp: units_def)
    also have "\<dots> \<longleftrightarrow> (\<forall>i. Suc i < length (v # rest) \<longrightarrow>
        \<not> (isHighSurrogate ((v # rest) ! i) \<and> isLowSurrogate ((v # rest) ! Suc i)))"
      using "3.IH"(2) False by blast
    also have "\<dots> \<longleftrightarrow> (\<forall>i. Suc i < length (u # v # rest) \<longrightarrow>
        \<not> (isHighSurrogate ((u # v # rest) ! i) \<and> isLowSurrogate ((u # v # rest) ! Suc i)))"
      (is "?L \<longleftrightarrow> ?R")
    proof
      assume l: ?L
      show ?R
      proof (intro allI impI)
        fix i assume i: "Suc i < length (u # v # rest)"
        show "\<not> (isHighSurrogate ((u # v # rest) ! i) \<and> isLowSurrogate ((u # v # rest) ! Suc i))"
        proof (cases i)
          case 0
          with False show ?thesis by simp
        next
          case (Suc k)
          with i l [rule_format, of k] show ?thesis by simp
        qed
      qed
    next
      assume r: ?R
      show ?L
      proof (intro allI impI)
        fix i assume "Suc i < length (v # rest)"
        with r [rule_format, of "Suc i"]
        show "\<not> (isHighSurrogate ((v # rest) ! i) \<and> isLowSurrogate ((v # rest) ! Suc i))"
          by simp
      qed
    qed
    finally show ?thesis .
  qed
qed

lemma matchesAt_slice:
  "matchesAt w text i \<longleftrightarrow>
     (i < i + length w \<and> i + length w \<le> length text \<and> w = take (i + length w - i) (drop i text))"
proof
  assume m: "matchesAt w text i"
  then have "length (take (length w) (drop i text)) = length w" and "0 < length w"
    by (simp_all add: matchesAt_def)
  then have "min (length text - i) (length w) = length w" and "0 < length w" by simp_all
  then have "i + length w \<le> length text" by arith
  with m show "i < i + length w \<and> i + length w \<le> length text
      \<and> w = take (i + length w - i) (drop i text)"
    by (simp add: matchesAt_def)
next
  assume "i < i + length w \<and> i + length w \<le> length text
      \<and> w = take (i + length w - i) (drop i text)"
  then show "matchesAt w text i" by (auto simp: matchesAt_def)
qed

lemma slice_matches:
  assumes "i < e" and "e \<le> length text"
  shows "matchesAt (take (e - i) (drop i text)) text i"
    and "length (take (e - i) (drop i text)) = e - i"
  using assms by (auto simp: matchesAt_def)

lemma find_SomeD: "find P xs = Some x \<Longrightarrow> x \<in> set xs \<and> P x"
  by (induction xs) (auto split: if_splits)

text \<open>In a trie built from a dictionary, which nodes are accepted.\<close>

lemma accepted_in_build:
  assumes H: "\<forall>fw \<in> set es. snd fw \<noteq> [] \<and> codePoints (fst fw) = units (fst fw)"
    and ne: "p \<noteq> []"
  shows "(\<exists>n. descend (buildForeignWordTrie es) (units p) = Some n \<and> accepted n)
           \<longleftrightarrow> p \<in> fst ` set es"
    and "descend (buildForeignWordTrie es) (units p) = Some n \<Longrightarrow> accepted n \<Longrightarrow>
           word n = Some p \<and> (\<exists>r. replacement n = Some r \<and> map_of (rev es) p = Some r)"
proof -
  let ?f = "find (\<lambda>fw. codePoints (fst fw) = units p) (rev es)"
  have found: "?f = Some fw \<Longrightarrow> fw \<in> set es \<and> fst fw = p" for fw
  proof -
    assume "?f = Some fw"
    then have "fw \<in> set (rev es)" "codePoints (fst fw) = units p"
      by (auto dest: find_SomeD)
    with H show ?thesis by (auto dest: units_inj)
  qed
  have acc: "descend (buildForeignWordTrie es) (units p) = Some n \<and> accepted n
               \<longleftrightarrow> (\<exists>fw. ?f = Some fw \<and> payloadOf n = (True, Some (fst fw), Some (snd fw))
                     \<and> descend (buildForeignWordTrie es) (units p) = Some n)" for n
  proof
    assume a: "descend (buildForeignWordTrie es) (units p) = Some n \<and> accepted n"
    then have "fst (payloadOf n)" by (simp add: accepted_def payloadOf_def)
    with a descend_build [of es "units p"] show "\<exists>fw. ?f = Some fw
        \<and> payloadOf n = (True, Some (fst fw), Some (snd fw))
        \<and> descend (buildForeignWordTrie es) (units p) = Some n"
      by (auto split: option.splits if_splits)
  next
    assume "\<exists>fw. ?f = Some fw \<and> payloadOf n = (True, Some (fst fw), Some (snd fw))
        \<and> descend (buildForeignWordTrie es) (units p) = Some n"
    then obtain fw where fw: "?f = Some fw" "payloadOf n = (True, Some (fst fw), Some (snd fw))"
      "descend (buildForeignWordTrie es) (units p) = Some n" by blast
    from found [OF fw(1)] H ne have "fst fw \<noteq> []" "snd fw \<noteq> []" by auto
    with fw show "descend (buildForeignWordTrie es) (units p) = Some n \<and> accepted n"
      by (simp add: accepted_def payloadOf_def)
  qed
  show "(\<exists>n. descend (buildForeignWordTrie es) (units p) = Some n \<and> accepted n)
           \<longleftrightarrow> p \<in> fst ` set es"
  proof
    assume "\<exists>n. descend (buildForeignWordTrie es) (units p) = Some n \<and> accepted n"
    with acc obtain fw where "?f = Some fw" by blast
    from found [OF this] show "p \<in> fst ` set es" by auto
  next
    assume "p \<in> fst ` set es"
    then obtain fw0 where fw0: "fw0 \<in> set es" "fst fw0 = p" by auto
    with H have "codePoints (fst fw0) = units p" by auto
    with fw0 have "fw0 \<in> set (rev es) \<and> codePoints (fst fw0) = units p" by simp
    then have "\<exists>x. x \<in> set (rev es) \<and> codePoints (fst x) = units p" by (rule exI)
    then have "?f \<noteq> None" unfolding find_None_iff by blast
    then obtain fw where fw: "?f = Some fw" by auto
    with descend_build [of es "units p"] obtain n where
      "descend (buildForeignWordTrie es) (units p) = Some n"
      "payloadOf n = (True, Some (fst fw), Some (snd fw))" by auto
    with fw acc show "\<exists>n. descend (buildForeignWordTrie es) (units p) = Some n \<and> accepted n"
      by blast
  qed
  show "word n = Some p \<and> (\<exists>r. replacement n = Some r \<and> map_of (rev es) p = Some r)"
    if d: "descend (buildForeignWordTrie es) (units p) = Some n" and a: "accepted n"
  proof -
    from d a acc obtain fw where fw: "?f = Some fw"
      "payloadOf n = (True, Some (fst fw), Some (snd fw))" by blast
    from found [OF fw(1)] have mem: "fw \<in> set es" and p: "fst fw = p" by auto
    with H have "codePoints p = units p" by auto
    with fw(1) have "find (\<lambda>fw. codePoints (fst fw) = codePoints p) (rev es) = Some fw" by simp
    then have "map_option (Pair p) (map_of (rev es) p) = Some fw"
      by (simp add: find_last_entry)
    then have "map_of (rev es) p = Some (snd fw)" by auto
    with fw(2) p show ?thesis by (simp add: payloadOf_def)
  qed
qed

lemma candidate_is_longest:
  assumes H: "\<forall>fw \<in> set es. snd fw \<noteq> [] \<and> codePoints (fst fw) = units (fst fw)"
  shows "case walk text (buildForeignWordTrie es) i None of
           None \<Rightarrow> \<forall>w \<in> fst ` set es. \<not> matchesAt w text i
         | Some lm \<Rightarrow>
             longestTermAt es text i (lm_word lm)
             \<and> lm_end lm = int (i + length (lm_word lm))
             \<and> map_of (rev es) (lm_word lm) = Some (lm_replacement lm)"
proof -
  let ?root = "buildForeignWordTrie es"
  have key: "(\<exists>n. reaches ?root text i e n \<and> accepted n)
               \<longleftrightarrow> take (e - i) (drop i text) \<in> fst ` set es"
    if "i < e" "e \<le> length text" for e
  proof -
    from that have "take (e - i) (drop i text) \<noteq> []" by auto
    from accepted_in_build(1) [OF H this] show ?thesis by (simp add: reaches_def)
  qed
  have none: "\<forall>w \<in> fst ` set es. \<not> matchesAt w text i"
    if no: "\<forall>e' n'. i < e' \<and> e' \<le> length text \<and> reaches ?root text i e' n' \<longrightarrow> \<not> accepted n'"
  proof
    fix w assume w: "w \<in> fst ` set es"
    show "\<not> matchesAt w text i"
    proof
      assume "matchesAt w text i"
      then have s: "i < i + length w" "i + length w \<le> length text"
        "w = take (i + length w - i) (drop i text)"
        by (simp_all add: matchesAt_slice)
      with w key [OF s(1,2)] obtain n where "reaches ?root text i (i + length w) n" "accepted n"
        by auto
      with no s show False by blast
    qed
  qed
  from walk_cases [of i "text" ?root None] show ?thesis
  proof (elim disjE exE conjE)
    fix e n
    assume e: "i < e" "e \<le> length text" and r: "reaches ?root text i e n" and a: "accepted n"
      and w: "walk text ?root i None =
          Some \<lparr>lm_end = int e, lm_word = the (word n), lm_replacement = the (replacement n)\<rparr>"
      and mx: "\<forall>e' n'. e < e' \<and> e' \<le> length text \<and> reaches ?root text i e' n' \<longrightarrow> \<not> accepted n'"
    let ?p = "take (e - i) (drop i text)"
    from e have ne: "?p \<noteq> []" and len: "length ?p = e - i" by auto
    from r have d: "descend ?root (units ?p) = Some n" by (simp add: reaches_def)
    from accepted_in_build(2) [OF H ne d a] obtain rr where
      wd: "word n = Some ?p" and rp: "replacement n = Some rr" "map_of (rev es) ?p = Some rr"
      by blast
    from key [OF e] r a have mem: "?p \<in> fst ` set es" by blast
    have longest: "\<forall>w' \<in> fst ` set es. matchesAt w' text i \<longrightarrow> length w' \<le> length ?p"
    proof (intro ballI impI)
      fix w' assume w': "w' \<in> fst ` set es" and m: "matchesAt w' text i"
      then have s: "i < i + length w'" "i + length w' \<le> length text"
        "w' = take (i + length w' - i) (drop i text)"
        by (simp_all add: matchesAt_slice)
      with w' key [OF s(1,2)] obtain n' where
        n': "reaches ?root text i (i + length w') n'" "accepted n'" by auto
      show "length w' \<le> length ?p"
      proof (rule ccontr)
        assume "\<not> length w' \<le> length ?p"
        with len e have "e < i + length w'" by simp
        with mx s(2) n' show False by blast
      qed
    qed
    have "longestTermAt es text i ?p"
      using mem longest slice_matches(1) [OF e] by (simp add: longestTermAt_def)
    with w wd rp len e show ?thesis by simp
  next
    assume "walk text ?root i None = None"
      and "\<forall>e' n'. i < e' \<and> e' \<le> length text \<and> reaches ?root text i e' n' \<longrightarrow> \<not> accepted n'"
    with none show ?thesis by simp
  qed
qed

lemma scan_candidates:
  "scan root text i matches = matches @ concat (map (candidateAt root text) [i ..< length text])"
proof (induction root "text" i matches rule: scan.induct)
  case (1 root t i matches)
  show ?case
  proof (cases "i < length t")
    case False
    then show ?thesis by (simp add: scan.simps)
  next
    case True
    then have up: "[i ..< length t] = i # [i + 1 ..< length t]" by (simp add: upt_rec)
    show ?thesis
    proof (cases "walk t root i None")
      case None
      with True "1.IH"(1) [OF True None] up show ?thesis
        by (simp add: scan.simps [of root t i] candidateAt_def)
    next
      case (Some lm)
      with True "1.IH"(2) [OF True Some] up show ?thesis
        by (simp add: scan.simps [of root t i] candidateAt_def)
    qed
  qed
qed

lemma candidateAt_start: "m \<in> set (candidateAt root text i) \<Longrightarrow> start m = int i"
  by (auto simp: candidateAt_def split: option.splits)

lemma candidates_increasing:
  "sorted_wrt (\<lambda>a b. start a < start b) (concat (map (candidateAt root text) [i ..< n]))"
proof (induction n)
  case 0
  show ?case by simp
next
  case (Suc n)
  show ?case
  proof (cases "i \<le> n")
    case False
    then show ?thesis by simp
  next
    case True
    have single: "sorted_wrt (\<lambda>a b. start a < start b) (candidateAt root text n)"
      by (simp add: candidateAt_def split: option.splits)
    have "\<forall>a \<in> set (concat (map (candidateAt root text) [i ..< n])).
            \<forall>b \<in> set (candidateAt root text n). start a < start b"
      by (auto dest!: candidateAt_start)
    with True Suc single show ?thesis by (simp add: sorted_wrt_append)
  qed
qed

text \<open>Whatever the trie, a candidate has a non-empty term and a non-empty replacement.\<close>

lemma truthy_the: "truthy v \<Longrightarrow> the v \<noteq> []"
  by (cases v) auto

lemma candidates_truthy:
  "\<forall>m \<in> set (scan root text 0 []). word_m m \<noteq> [] \<and> replacement_m m \<noteq> []"
proof
  fix m assume "m \<in> set (scan root text 0 [])"
  then obtain i where "m \<in> set (candidateAt root text i)"
    by (auto simp: scan_candidates)
  then obtain lm where lm: "walk text root i None = Some lm"
    and m: "word_m m = lm_word lm" "replacement_m m = lm_replacement lm"
    by (cases "walk text root i None") (auto simp: candidateAt_def)
  from walk_cases [of i "text" root None] lm obtain n where
    "accepted n" "lm_word lm = the (word n)" "lm_replacement lm = the (replacement n)"
    by auto
  with m show "word_m m \<noteq> [] \<and> replacement_m m \<noteq> []"
    by (simp add: accepted_def truthy_the)
qed

text \<open>
  C2, as the code has it. A term whose replacement is the empty string is never
  recorded: with \<open>a\<close> (replacement \<open>x\<close>) and \<open>ab\<close> (empty replacement) in the
  dictionary, the candidate recorded at offset 0 of \<open>ab\<close> is the shorter \<open>a\<close>.
\<close>

theorem longest_at_start_counterexample:
  "scan (buildForeignWordTrie [(js ''a'', js ''x''), (js ''ab'', [])]) (js ''ab'') 0 []
     = [\<lparr>start = 0, end' = 1, word_m = js ''a'', replacement_m = js ''x''\<rparr>]
   \<and> Trie_findAllMatches (buildForeignWordTrie [(js ''a'', js ''x''), (js ''ab'', [])]) (js ''ab'')
     = [\<lparr>start = 0, end' = 1, word_m = js ''a'', replacement_m = js ''x''\<rparr>]
   \<and> matchesAt (js ''ab'') (js ''ab'') 0
   \<and> \<not> longestTermAt [(js ''a'', js ''x''), (js ''ab'', [])] (js ''ab'') 0 (js ''a'')"
  by (simp add: matcher_eval buildForeignWordTrie_def matchesAt_def longestTermAt_def)

text \<open>\<open>getReplacement\<close> reads an empty replacement as no replacement as well.\<close>

lemma empty_replacement_reads_as_absent:
  "Trie_search (buildForeignWordTrie [(js ''ab'', [])]) (js ''ab'')
   \<and> Trie_getReplacement (buildForeignWordTrie [(js ''ab'', [])]) (js ''ab'') = None
   \<and> Trie_findAllMatches (buildForeignWordTrie [(js ''ab'', [])]) (js ''ab'') = []"
  by (simp add: matcher_eval buildForeignWordTrie_def Trie_getReplacement_def)

text \<open>
  A term with a surrogate pair is stored under the two-unit key of its code point,
  while \<open>findAllMatches\<close> looks up one code unit at a time: here \<open>search\<close> finds
  the term and \<open>findAllMatches\<close> does not.
\<close>

lemma surrogate_pair_term_not_matched:
  "Trie_search (buildForeignWordTrie [([0xD83D, 0xDE00], js ''x'')]) [0xD83D, 0xDE00]
   \<and> matchesAt [0xD83D, 0xDE00] [0xD83D, 0xDE00] 0
   \<and> Trie_findAllMatches (buildForeignWordTrie [([0xD83D, 0xDE00], js ''x'')]) [0xD83D, 0xDE00] = []"
  by (simp add: matcher_eval buildForeignWordTrie_def matchesAt_def)

text \<open>
  C2. With exactly \<open>a\<close> (replacement \<open>x\<close>) and \<open>ab\<close> (replacement \<open>y\<close>) inserted, in
  either order, \<open>findAllMatches\<close> of \<open>ab\<close> returns the single match of \<open>ab\<close> at
  [0,2). In general, for a dictionary whose replacements are not empty and whose
  terms have no surrogate pair, and for every text: the candidates are recorded in
  strictly increasing order of their start, so at most one per start offset; every
  candidate is the longest term of the dictionary that occurs at its start offset,
  ends where that term ends, and carries the replacement inserted last for it; and
  every offset at which some term occurs has a candidate. For any trie at all, a
  candidate never has an empty term or an empty replacement.
\<close>

theorem longest_at_start:
  assumes H: "\<forall>fw \<in> set foreignWordsData.
                snd fw \<noteq> [] \<and> codePoints (fst fw) = units (fst fw)"
  shows "Trie_findAllMatches
           (Trie_insert (Trie_insert createNode (js ''a'') (js ''x'')) (js ''ab'') (js ''y''))
           (js ''ab'')
         = [\<lparr>start = 0, end' = 2, word_m = js ''ab'', replacement_m = js ''y''\<rparr>]
       \<and> Trie_findAllMatches
           (Trie_insert (Trie_insert createNode (js ''ab'') (js ''y'')) (js ''a'') (js ''x''))
           (js ''ab'')
         = [\<lparr>start = 0, end' = 2, word_m = js ''ab'', replacement_m = js ''y''\<rparr>]
       \<and> sorted_wrt (\<lambda>a b. start a < start b)
           (scan (buildForeignWordTrie foreignWordsData) text 0 [])
       \<and> (\<forall>m \<in> set (scan (buildForeignWordTrie foreignWordsData) text 0 []).
            \<exists>i < length text. start m = int i
              \<and> longestTermAt foreignWordsData text i (word_m m)
              \<and> end' m = int (i + length (word_m m))
              \<and> map_of (rev foreignWordsData) (word_m m) = Some (replacement_m m))
       \<and> (\<forall>i. (\<exists>w \<in> fst ` set foreignWordsData. matchesAt w text i) \<longrightarrow>
            (\<exists>m \<in> set (scan (buildForeignWordTrie foreignWordsData) text 0 []).
               start m = int i))
       \<and> (\<forall>m \<in> set (scan root text 0 []). word_m m \<noteq> [] \<and> replacement_m m \<noteq> [])"
proof (intro conjI)
  show "\<forall>m \<in> set (scan root text 0 []). word_m m \<noteq> [] \<and> replacement_m m \<noteq> []"
    by (rule candidates_truthy)
next
  let ?root = "buildForeignWordTrie foreignWordsData"
  have sc: "scan ?root text 0 [] = concat (map (candidateAt ?root text) [0 ..< length text])"
    by (simp add: scan_candidates)
  show "Trie_findAllMatches
           (Trie_insert (Trie_insert createNode (js ''a'') (js ''x'')) (js ''ab'') (js ''y''))
           (js ''ab'')
         = [\<lparr>start = 0, end' = 2, word_m = js ''ab'', replacement_m = js ''y''\<rparr>]"
    by (simp add: matcher_eval)
  show "Trie_findAllMatches
           (Trie_insert (Trie_insert createNode (js ''ab'') (js ''y'')) (js ''a'') (js ''x''))
           (js ''ab'')
         = [\<lparr>start = 0, end' = 2, word_m = js ''ab'', replacement_m = js ''y''\<rparr>]"
    by (simp add: matcher_eval)
  show "sorted_wrt (\<lambda>a b. start a < start b) (scan ?root text 0 [])"
    unfolding sc by (rule candidates_increasing)
  show "\<forall>m \<in> set (scan ?root text 0 []).
            \<exists>i < length text. start m = int i
              \<and> longestTermAt foreignWordsData text i (word_m m)
              \<and> end' m = int (i + length (word_m m))
              \<and> map_of (rev foreignWordsData) (word_m m) = Some (replacement_m m)"
  proof
    fix m assume "m \<in> set (scan ?root text 0 [])"
    with sc obtain i where i: "i < length text" and m: "m \<in> set (candidateAt ?root text i)"
      by auto
    from m obtain lm where lm: "walk text ?root i None = Some lm"
      and md: "m = \<lparr>start = int i, end' = lm_end lm, word_m = lm_word lm,
                    replacement_m = lm_replacement lm\<rparr>"
      by (cases "walk text ?root i None") (auto simp: candidateAt_def)
    from candidate_is_longest [OF H, of "text" i] lm
    have "longestTermAt foreignWordsData text i (lm_word lm)
          \<and> lm_end lm = int (i + length (lm_word lm))
          \<and> map_of (rev foreignWordsData) (lm_word lm) = Some (lm_replacement lm)" by simp
    with i md show "\<exists>i < length text. start m = int i
              \<and> longestTermAt foreignWordsData text i (word_m m)
              \<and> end' m = int (i + length (word_m m))
              \<and> map_of (rev foreignWordsData) (word_m m) = Some (replacement_m m)"
      by auto
  qed
  show "\<forall>i. (\<exists>w \<in> fst ` set foreignWordsData. matchesAt w text i) \<longrightarrow>
            (\<exists>m \<in> set (scan ?root text 0 []). start m = int i)"
  proof (intro allI impI)
    fix i assume "\<exists>w \<in> fst ` set foreignWordsData. matchesAt w text i"
    then obtain w where w: "w \<in> fst ` set foreignWordsData" "matchesAt w text i" by blast
    then have "i < i + length w" "i + length w \<le> length text"
      unfolding matchesAt_slice by blast+
    then have i: "i < length text" by arith
    from candidate_is_longest [OF H, of "text" i] w obtain lm where
      "walk text ?root i None = Some lm"
      by (cases "walk text ?root i None") auto
    then have "\<lparr>start = int i, end' = lm_end lm, word_m = lm_word lm,
                replacement_m = lm_replacement lm\<rparr> \<in> set (candidateAt ?root text i)"
      by (simp add: candidateAt_def)
    with i sc show "\<exists>m \<in> set (scan ?root text 0 []). start m = int i"
      by force
  qed
qed

theorem longest_at_start_witness:
  "scan (buildForeignWordTrie [(js ''a'', js ''x''), (js ''ab'', js ''y'')]) (js ''ab'') 0 []
     = [\<lparr>start = 0, end' = 2, word_m = js ''ab'', replacement_m = js ''y''\<rparr>]
   \<and> longestTermAt [(js ''a'', js ''x''), (js ''ab'', js ''y'')] (js ''ab'') 0 (js ''ab'')
   \<and> matchesAt (js ''a'') (js ''ab'') 0"
proof -
  let ?data = "[(js ''a'', js ''x''), (js ''ab'', js ''y'')]"
  have H: "\<forall>fw \<in> set ?data. snd fw \<noteq> [] \<and> codePoints (fst fw) = units (fst fw)"
    by (simp add: js_def units_def isHighSurrogate_def isLowSurrogate_def)
  have s: "scan (buildForeignWordTrie ?data) (js ''ab'') 0 []
     = [\<lparr>start = 0, end' = 2, word_m = js ''ab'', replacement_m = js ''y''\<rparr>]"
    by (simp add: matcher_eval buildForeignWordTrie_def)
  from longest_at_start [OF H, of "js ''ab''"] s
  have "\<exists>i < length (js ''ab''). (0::int) = int i
          \<and> longestTermAt ?data (js ''ab'') i (js ''ab'')" by simp
  then have "longestTermAt ?data (js ''ab'') 0 (js ''ab'')" by auto
  moreover have "matchesAt (js ''a'') (js ''ab'') 0" by (simp add: matchesAt_def js_def)
  ultimately show ?thesis using s by simp
qed

section \<open>Properties of the span transforms\<close>

lemmas transform_eval =
  removeTextNodeTransform_def removeForeignWordTransform_def getTextContent_def
  matchStep_def startSplit_def endSplit_def splitText_def replace_def getNextSibling_def
  leaves_def Let_def

text \<open>
  C4. With the single term \<open>coffee\<close> (replacement \<open>brew\<close>), the transform of a lone
  text node \<open>I like coffee a lot\<close> finishes and leaves three siblings: the text
  \<open>I like \<close>, a \<open>ForeignWordNode\<close> with text \<open>coffee\<close> and replacement \<open>brew\<close>, and
  the text \<open> a lot\<close>.
\<close>

theorem forward_transform_coffee:
  "map_option leaves
     (removeTextNodeTransform (Trie_insert createNode (js ''coffee'') (js ''brew''))
        \<lparr>nodeMap = [0 \<mapsto> TextNode (js ''I like coffee a lot'')], siblings = [0], nextKey = 1\<rparr> 0)
   = Some [Some (TextNode (js ''I like '')),
           Some (ForeignWordNode (js ''coffee'') (js ''brew'')),
           Some (TextNode (js '' a lot''))]"
  by (simp add: matcher_eval transform_eval)

text \<open>
  C5. On a plain text node in whose text \<open>findAllMatches\<close> finds nothing, the
  forward transform returns with the tree, the node map and the key counter as they
  were.
\<close>

theorem forward_identity_without_matches:
  assumes "nodeMap st textNode = Some (TextNode t)"
    and "Trie_findAllMatches foreignWordTrie t = []"
  shows "removeTextNodeTransform foreignWordTrie st textNode = Some st"
  using assms by (simp add: removeTextNodeTransform_def getTextContent_def)

theorem forward_identity_without_matches_witness:
  "nodeMap \<lparr>nodeMap = [0 \<mapsto> TextNode (js ''tea'')], siblings = [0], nextKey = 1\<rparr> 0
     = Some (TextNode (js ''tea''))
   \<and> Trie_findAllMatches (Trie_insert createNode (js ''coffee'') (js ''brew'')) (js ''tea'') = []
   \<and> removeTextNodeTransform (Trie_insert createNode (js ''coffee'') (js ''brew''))
        \<lparr>nodeMap = [0 \<mapsto> TextNode (js ''tea'')], siblings = [0], nextKey = 1\<rparr> 0
     = Some \<lparr>nodeMap = [0 \<mapsto> TextNode (js ''tea'')], siblings = [0], nextKey = 1\<rparr>"
proof -
  have a: "nodeMap \<lparr>nodeMap = [0 \<mapsto> TextNode (js ''tea'')], siblings = [0], nextKey = 1\<rparr> 0
     = Some (TextNode (js ''tea''))" by simp
  have b: "Trie_findAllMatches (Trie_insert createNode (js ''coffee'') (js ''brew'')) (js ''tea'') = []"
    by (simp add: matcher_eval)
  from forward_identity_without_matches [OF a b] a b show ?thesis by simp
qed

subsection \<open>The reverse transform\<close>

lemma reversePassOver_unchanged:
  "\<forall>k \<in> set ks. selfHealed foreignWordTrie (nodeMap st k) = nodeMap st k \<Longrightarrow>
   reversePassOver foreignWordTrie ks st = Some st"
proof (induction ks)
  case Nil
  show ?case by simp
next
  case (Cons k ks)
  then have rest: "reversePassOver foreignWordTrie ks st = Some st" by simp
  show ?case
  proof (cases "nodeMap st k")
    case None
    with rest show ?thesis by simp
  next
    case (Some n)
    show ?thesis
    proof (cases n)
      case (ForeignWordNode t r)
      with Some Cons.prems have "Trie_search foreignWordTrie t"
        by (auto split: if_splits)
      with Some ForeignWordNode rest show ?thesis
        by (simp add: removeForeignWordTransform_def getTextContent_def)
    qed (use Some rest in simp_all)
  qed
qed

lemma selfHealed_idem:
  "selfHealed foreignWordTrie (selfHealed foreignWordTrie n) = selfHealed foreignWordTrie n"
  by (cases "(foreignWordTrie, n)" rule: selfHealed.cases) auto

lemma divergent_replaced:
  assumes node: "nodeMap st k = Some (ForeignWordNode t r)"
    and attached: "k \<in> set (siblings st)"
    and fresh: "\<forall>k' \<in> set (siblings st). k' < nextKey st"
    and divergent: "\<not> Trie_search foreignWordTrie t"
  shows "\<exists>st'. removeForeignWordTransform foreignWordTrie st k = Some st'
           \<and> siblings st' = map (\<lambda>k'. if k' = k then nextKey st else k') (siblings st)
           \<and> nodeMap st' = (nodeMap st)(nextKey st \<mapsto> TextNode t)
           \<and> nextKey st' = nextKey st + 1
           \<and> leaves st' =
               map (\<lambda>k'. if k' = k then Some (TextNode t) else nodeMap st k') (siblings st)"
proof -
  let ?st' = "\<lparr>nodeMap = (nodeMap st)(nextKey st \<mapsto> TextNode t),
               siblings = map (\<lambda>k'. if k' = k then nextKey st else k') (siblings st),
               nextKey = nextKey st + 1\<rparr>"
  have run: "removeForeignWordTransform foreignWordTrie st k = Some ?st'"
    using node attached divergent
    by (simp add: removeForeignWordTransform_def getTextContent_def replace_def Let_def)
  have "leaves ?st' =
          map (\<lambda>k'. if k' = k then Some (TextNode t) else nodeMap st k') (siblings st)"
    using fresh by (auto simp: leaves_def)
  with run show ?thesis by simp
qed

lemma reversePassOver_heals:
  assumes "distinct ks" and "set ks \<subseteq> set (siblings st)" and "wellFormed st"
  shows "\<exists>st'. reversePassOver foreignWordTrie ks st = Some st' \<and> wellFormed st'
           \<and> leaves st' =
               map (\<lambda>k. if k \<in> set ks then selfHealed foreignWordTrie (nodeMap st k)
                         else nodeMap st k) (siblings st)"
  using assms
proof (induction ks arbitrary: st)
  case Nil
  then show ?case by (simp add: leaves_def)
next
  case (Cons k ks)
  from Cons.prems have dks: "distinct ks" and knot: "k \<notin> set ks"
    and sub: "set ks \<subseteq> set (siblings st)" and kin: "k \<in> set (siblings st)"
    and wf: "wellFormed st" by auto
  from wf have fresh: "\<forall>k' \<in> set (siblings st). k' < nextKey st"
    and dsib: "distinct (siblings st)" by (auto simp: wellFormed_def)
  have unchanged_case:
    "selfHealed foreignWordTrie (nodeMap st k) = nodeMap st k \<Longrightarrow>
     reversePassOver foreignWordTrie (k # ks) st = reversePassOver foreignWordTrie ks st"
  proof -
    assume h: "selfHealed foreignWordTrie (nodeMap st k) = nodeMap st k"
    show ?thesis
    proof (cases "nodeMap st k")
      case None
      then show ?thesis by simp
    next
      case (Some n)
      show ?thesis
      proof (cases n)
        case (ForeignWordNode t r)
        with Some h have "Trie_search foreignWordTrie t" by (auto split: if_splits)
        with Some ForeignWordNode show ?thesis
          by (simp add: removeForeignWordTransform_def getTextContent_def)
      qed (use Some in simp_all)
    qed
  qed
  show ?case
  proof (cases "selfHealed foreignWordTrie (nodeMap st k) = nodeMap st k")
    case True
    from Cons.IH [OF dks sub wf] obtain st' where
      r: "reversePassOver foreignWordTrie ks st = Some st'" and w: "wellFormed st'"
      and l: "leaves st' =
               map (\<lambda>k. if k \<in> set ks then selfHealed foreignWordTrie (nodeMap st k)
                         else nodeMap st k) (siblings st)" by blast
    have "leaves st' =
            map (\<lambda>k'. if k' \<in> set (k # ks) then selfHealed foreignWordTrie (nodeMap st k')
                       else nodeMap st k') (siblings st)"
      using l True by auto
    with r w unchanged_case [OF True] show ?thesis by simp
  next
    case False
    then obtain t r where node: "nodeMap st k = Some (ForeignWordNode t r)"
      and divergent: "\<not> Trie_search foreignWordTrie t"
      by (cases "(foreignWordTrie, nodeMap st k)" rule: selfHealed.cases) (auto split: if_splits)
    from divergent_replaced [OF node kin fresh divergent] obtain st1 where
      run: "removeForeignWordTransform foreignWordTrie st k = Some st1"
      and sib1: "siblings st1 = map (\<lambda>k'. if k' = k then nextKey st else k') (siblings st)"
      and nm1: "nodeMap st1 = (nodeMap st)(nextKey st \<mapsto> TextNode t)"
      and nk1: "nextKey st1 = nextKey st + 1" by blast
    have inj: "inj_on (\<lambda>k'. if k' = k then nextKey st else k') (set (siblings st))"
      using fresh by (auto simp: inj_on_def)
    have wf1: "wellFormed st1"
      using dsib fresh inj by (auto simp: wellFormed_def sib1 nk1 distinct_map)
    have sub1: "set ks \<subseteq> set (siblings st1)"
      using sub knot by (auto simp: sib1)
    from Cons.IH [OF dks sub1 wf1] obtain st' where
      r: "reversePassOver foreignWordTrie ks st1 = Some st'" and w: "wellFormed st'"
      and l: "leaves st' =
               map (\<lambda>k. if k \<in> set ks then selfHealed foreignWordTrie (nodeMap st1 k)
                         else nodeMap st1 k) (siblings st1)" by blast
    have newnot: "nextKey st \<notin> set ks" using sub fresh by auto
    have "leaves st' =
            map (\<lambda>k'. if k' \<in> set (k # ks) then selfHealed foreignWordTrie (nodeMap st k')
                       else nodeMap st k') (siblings st)"
      unfolding l sib1 nm1 using newnot fresh node divergent knot
      by (auto simp: comp_def)
    moreover have "reversePassOver foreignWordTrie (k # ks) st = Some st'"
      using node run r by simp
    ultimately show ?thesis using w by blast
  qed
qed

text \<open>
  C6. In a well-formed tree: the reverse transform of an attached annotated span
  whose text \<open>search\<close> finds returns the tree as it was; for a span whose text
  \<open>search\<close> does not find, it puts a plain text node with the same text in its
  place and changes no other leaf. One run over the children therefore maps every
  leaf to its self-healed form, a second run on the result changes nothing, and a
  run over a tree without divergent spans changes nothing.
\<close>

theorem reverse_transform_self_heals:
  assumes wf: "wellFormed st"
  shows "(\<forall>k t r. k \<in> set (siblings st) \<and> nodeMap st k = Some (ForeignWordNode t r) \<longrightarrow>
            (if Trie_search foreignWordTrie t
             then removeForeignWordTransform foreignWordTrie st k = Some st
             else \<exists>st'. removeForeignWordTransform foreignWordTrie st k = Some st'
                    \<and> leaves st' =
                        map (\<lambda>k'. if k' = k then Some (TextNode t) else nodeMap st k')
                          (siblings st)))
       \<and> (\<exists>st'. reversePass foreignWordTrie st = Some st'
             \<and> leaves st' = map (selfHealed foreignWordTrie) (leaves st)
             \<and> reversePass foreignWordTrie st' = Some st')
       \<and> ((\<forall>n \<in> set (leaves st). selfHealed foreignWordTrie n = n) \<longrightarrow>
             reversePass foreignWordTrie st = Some st)"
proof (intro conjI allI impI)
  fix k t r
  assume h: "k \<in> set (siblings st) \<and> nodeMap st k = Some (ForeignWordNode t r)"
  from wf have fresh: "\<forall>k' \<in> set (siblings st). k' < nextKey st"
    by (simp add: wellFormed_def)
  show "if Trie_search foreignWordTrie t
        then removeForeignWordTransform foreignWordTrie st k = Some st
        else \<exists>st'. removeForeignWordTransform foreignWordTrie st k = Some st'
               \<and> leaves st' =
                   map (\<lambda>k'. if k' = k then Some (TextNode t) else nodeMap st k') (siblings st)"
  proof (cases "Trie_search foreignWordTrie t")
    case True
    with h show ?thesis by (simp add: removeForeignWordTransform_def getTextContent_def)
  next
    case False
    from h divergent_replaced [OF _ _ fresh False, of k r] False show ?thesis by auto
  qed
next
  from wf have d: "distinct (siblings st)" by (simp add: wellFormed_def)
  from reversePassOver_heals [OF d subset_refl wf, of foreignWordTrie] obtain st' where
    r: "reversePass foreignWordTrie st = Some st'"
    and l: "leaves st' = map (selfHealed foreignWordTrie) (leaves st)"
    by (auto simp: reversePass_def leaves_def)
  have "\<forall>k \<in> set (siblings st'). selfHealed foreignWordTrie (nodeMap st' k) = nodeMap st' k"
  proof
    fix k assume "k \<in> set (siblings st')"
    then have "nodeMap st' k \<in> set (leaves st')" by (simp add: leaves_def)
    with l obtain n where "nodeMap st' k = selfHealed foreignWordTrie n" by auto
    then show "selfHealed foreignWordTrie (nodeMap st' k) = nodeMap st' k"
      by (simp add: selfHealed_idem)
  qed
  then have "reversePass foreignWordTrie st' = Some st'"
    unfolding reversePass_def by (rule reversePassOver_unchanged)
  with r l show "\<exists>st'. reversePass foreignWordTrie st = Some st'
             \<and> leaves st' = map (selfHealed foreignWordTrie) (leaves st)
             \<and> reversePass foreignWordTrie st' = Some st'" by blast
next
  assume "\<forall>n \<in> set (leaves st). selfHealed foreignWordTrie n = n"
  then have "\<forall>k \<in> set (siblings st). selfHealed foreignWordTrie (nodeMap st k) = nodeMap st k"
    by (simp add: leaves_def)
  then show "reversePass foreignWordTrie st = Some st"
    unfolding reversePass_def by (rule reversePassOver_unchanged)
qed

theorem reverse_transform_self_heals_witness:
  "wellFormed
     \<lparr>nodeMap = [0 \<mapsto> TextNode (js ''I like ''),
                 1 \<mapsto> ForeignWordNode (js ''coffe'') (js ''brew''),
                 2 \<mapsto> ForeignWordNode (js ''coffee'') (js ''brew'')],
      siblings = [0, 1, 2], nextKey = 3\<rparr>
   \<and> map_option leaves
        (reversePass (Trie_insert createNode (js ''coffee'') (js ''brew''))
           \<lparr>nodeMap = [0 \<mapsto> TextNode (js ''I like ''),
                       1 \<mapsto> ForeignWordNode (js ''coffe'') (js ''brew''),
                       2 \<mapsto> ForeignWordNode (js ''coffee'') (js ''brew'')],
            siblings = [0, 1, 2], nextKey = 3\<rparr>)
       = Some [Some (TextNode (js ''I like '')),
               Some (TextNode (js ''coffe'')),
               Some (ForeignWordNode (js ''coffee'') (js ''brew''))]
   \<and> Option.bind
        (reversePass (Trie_insert createNode (js ''coffee'') (js ''brew''))
           \<lparr>nodeMap = [0 \<mapsto> TextNode (js ''I like ''),
                       1 \<mapsto> ForeignWordNode (js ''coffe'') (js ''brew''),
                       2 \<mapsto> ForeignWordNode (js ''coffee'') (js ''brew'')],
            siblings = [0, 1, 2], nextKey = 3\<rparr>)
        (reversePass (Trie_insert createNode (js ''coffee'') (js ''brew'')))
       = reversePass (Trie_insert createNode (js ''coffee'') (js ''brew''))
           \<lparr>nodeMap = [0 \<mapsto> TextNode (js ''I like ''),
                       1 \<mapsto> ForeignWordNode (js ''coffe'') (js ''brew''),
                       2 \<mapsto> ForeignWordNode (js ''coffee'') (js ''brew'')],
            siblings = [0, 1, 2], nextKey = 3\<rparr>"
proof -
  let ?st = "\<lparr>nodeMap = [0 \<mapsto> TextNode (js ''I like ''),
                       1 \<mapsto> ForeignWordNode (js ''coffe'') (js ''brew''),
                       2 \<mapsto> ForeignWordNode (js ''coffee'') (js ''brew'')],
            siblings = [0, 1, 2], nextKey = 3::nat\<rparr>"
  let ?trie = "Trie_insert createNode (js ''coffee'') (js ''brew'')"
  have wf: "wellFormed ?st" by (simp add: wellFormed_def)
  from reverse_transform_self_heals [OF wf, of ?trie] obtain st' where
    r: "reversePass ?trie ?st = Some st'"
    and l: "leaves st' = map (selfHealed ?trie) (leaves ?st)"
    and again: "reversePass ?trie st' = Some st'" by blast
  have "map (selfHealed ?trie) (leaves ?st) =
          [Some (TextNode (js ''I like '')), Some (TextNode (js ''coffe'')),
           Some (ForeignWordNode (js ''coffee'') (js ''brew''))]"
    by (simp add: leaves_def matcher_eval)
  with wf r l again show ?thesis by simp
qed

section \<open>Properties of the lifecycle tracker\<close>

lemma Set_add_set: "set (Set_add s x) = insert x (set s)"
  by (auto simp: Set_add_def Set_has_def)

lemma Set_add_distinct: "distinct s \<Longrightarrow> distinct (Set_add s x)"
  by (auto simp: Set_add_def Set_has_def)

lemma deletedLoop_set:
  "set (deletedLoop previousIds currentIds deletedIds) =
     set deletedIds \<union> (set previousIds - set currentIds)"
  by (induction previousIds arbitrary: deletedIds) (auto simp: Set_add_set Set_has_def)

lemma deletedLoop_distinct:
  "distinct deletedIds \<Longrightarrow> distinct (deletedLoop previousIds currentIds deletedIds)"
  by (induction previousIds arbitrary: deletedIds) (auto simp: Set_add_distinct)

lemma count_list_distinct:
  "distinct xs \<Longrightarrow> count_list xs x = (if x \<in> set xs then 1 else 0)"
  by (induction xs) auto

text \<open>
  What \<open>collectWordIds\<close> collects: the values of the attribute on the parents of
  the text leaves, the empty string left out (it is falsy).
\<close>

lemma collectLoop_set:
  "set (collectLoop attributeName nodes ids) =
     set ids \<union> {v. v \<noteq> [] \<and> (\<exists>p \<in> snd ` set nodes. getNodeAttribute p attributeName = Some v)}"
proof (induction nodes arbitrary: ids)
  case Nil
  show ?case by simp
next
  case (Cons n nodes)
  obtain leaf parent where n: "n = (leaf, parent)" by (cases n)
  show ?case
  proof (cases "getNodeAttribute parent attributeName")
    case None
    then show ?thesis using Cons.IH [of ids] n by (auto simp: Let_def)
  next
    case (Some v)
    show ?thesis
    proof (cases "v = []")
      case True
      with Some show ?thesis using Cons.IH [of ids] n by (auto simp: Let_def)
    next
      case False
      with Some show ?thesis using Cons.IH [of "Set_add ids v"] n
        by (auto simp: Let_def Set_add_set)
    qed
  qed
qed

lemma collectWordIds_set:
  "set (collectWordIds root attributeName) =
     {v. v \<noteq> [] \<and>
         (\<exists>p \<in> snd ` set (getAllTextNodes root). getNodeAttribute p attributeName = Some v)}"
  by (simp add: collectWordIds_def collectLoop_set)

text \<open>
  The ids \<open>collectWordIds\<close> returns are the values of the attribute on the parents
  of the text leaves, without the empty string.
\<close>

lemma parent_values:
  "{v. getNodeAttribute (ElementNode attrs cs) a = Some v} =
     (case attrs of None \<Rightarrow> {}
      | Some getAttribute \<Rightarrow> (case getAttribute a of None \<Rightarrow> {} | Some v \<Rightarrow> {v}))"
  by (auto split: option.splits)

lemma union_over_children:
  "(\<And>c. P c \<Longrightarrow> f c = {}) \<Longrightarrow>
   (\<Union>c \<in> S. if P c then Q else f c) = (if \<exists>c \<in> S. P c then Q else {}) \<union> (\<Union>c \<in> S. f c)"
  by (auto split: if_splits)

lemma textNodesUnder_values:
  "{v. \<exists>p \<in> snd ` set (textNodesUnder parent node). getNodeAttribute p a = Some v} =
     (if isTextLeaf node then {v. getNodeAttribute parent a = Some v}
      else attributeValuesIn a node)"
proof (induction parent node rule: textNodesUnder.induct)
  case (1 parent t)
  show ?case by simp
next
  case (2 parent attrs cs)
  let ?me = "ElementNode attrs cs"
  have "{v. \<exists>p \<in> snd ` set (textNodesUnder parent ?me). getNodeAttribute p a = Some v} =
        (\<Union>c \<in> set cs. {v. \<exists>p \<in> snd ` set (textNodesUnder ?me c). getNodeAttribute p a = Some v})"
    by auto
  also have "\<dots> = (\<Union>c \<in> set cs. if isTextLeaf c then {v. getNodeAttribute ?me a = Some v}
                                   else attributeValuesIn a c)"
    using "2.IH" by simp
  also have "\<dots> = attributeValuesIn a ?me"
  proof -
    have leaf: "attributeValuesIn a c = {}" if "isTextLeaf c" for c
      using that by (cases c) auto
    have "(\<Union>c \<in> set cs. if isTextLeaf c then {v. getNodeAttribute ?me a = Some v}
                                   else attributeValuesIn a c) =
          (if \<exists>c \<in> set cs. isTextLeaf c then {v. getNodeAttribute ?me a = Some v} else {})
            \<union> (\<Union>c \<in> set cs. attributeValuesIn a c)"
      by (rule union_over_children) (rule leaf)
    then show ?thesis by (simp only: attributeValuesIn.simps parent_values)
  qed
  finally show ?case by simp
qed

lemma getAllTextNodes_values:
  "{v. \<exists>p \<in> snd ` set (getAllTextNodes root). getNodeAttribute p a = Some v} =
     attributeValuesIn a root"
proof (cases root)
  case (TextLeaf t)
  then show ?thesis by simp
next
  case (ElementNode attrs cs)
  have "getAllTextNodes root = textNodesUnder root root"
    using ElementNode by simp
  with textNodesUnder_values [of root root a] ElementNode show ?thesis by simp
qed

lemma collectWordIds_values:
  "set (collectWordIds root a) = attributeValuesIn a root - {[]}"
proof -
  have "set (collectWordIds root a) =
      {v. v \<noteq> [] \<and> (\<exists>p \<in> snd ` set (getAllTextNodes root). getNodeAttribute p a = Some v)}"
    by (rule collectWordIds_set)
  also have "\<dots> = {v. \<exists>p \<in> snd ` set (getAllTextNodes root). getNodeAttribute p a = Some v} - {[]}"
    by auto
  finally show ?thesis using getAllTextNodes_values [of root a] by simp
qed

text \<open>
  C7, as the code has it. An element whose attribute is the empty string carries a
  value that is not null; \<open>collectWordIds\<close> reads it and, the empty string being
  falsy, does not collect it. When the element disappears, the callback is not
  called.
\<close>

theorem empty_id_not_reported:
  "[] \<in> attributeValuesIn (js ''originid'')
           (ElementNode None
              [ElementNode (Some [js ''originid'' \<mapsto> []]) [TextLeaf (js ''x'')]])
         - attributeValuesIn (js ''originid'') (ElementNode None [])
   \<and> getNodeAttribute (ElementNode (Some [js ''originid'' \<mapsto> []]) [TextLeaf (js ''x'')])
        (js ''originid'') = Some []
   \<and> handleEditorUpdate (ElementNode None [])
        (ElementNode None
           [ElementNode (Some [js ''originid'' \<mapsto> []]) [TextLeaf (js ''x'')]])
        (js ''originid'') = []"
  by (simp add: handleEditorUpdate_def findDeletedWordIds_def collectWordIds_def
      Set_add_def Set_has_def js_def Let_def)

text \<open>
  C7. For every pair of snapshots, the snapshot diff calls the deletion callback
  exactly once for each non-empty value that the attribute has on the parent of a
  text leaf of the previous snapshot and on no parent of a text leaf of the current
  one, and not at all for any other id; so never for an id of the current snapshot.
  On a previous snapshot with the ids \<open>w1\<close> and \<open>w2\<close> (and \<open>w3\<close> on an element
  without text) and a current one with \<open>w2\<close>, the calls are the one for \<open>w1\<close>.
\<close>

theorem snapshot_diff_calls:
  "count_list (handleEditorUpdate editorState prevEditorState attributeName) x =
     (if x \<noteq> [] \<and> x \<in> attributeValuesIn attributeName prevEditorState
           \<and> x \<notin> attributeValuesIn attributeName editorState
      then 1 else 0)
   \<and> handleEditorUpdate
        (ElementNode None
           [ElementNode (Some [js ''originid'' \<mapsto> js ''w2'']) [TextLeaf (js ''y'')]])
        (ElementNode None
           [ElementNode (Some [js ''originid'' \<mapsto> js ''w1'']) [TextLeaf (js ''x'')],
            ElementNode (Some [js ''originid'' \<mapsto> js ''w2''])
              [TextLeaf (js ''y''), TextLeaf (js ''z'')],
            ElementNode (Some [js ''originid'' \<mapsto> js ''w3'']) []])
        (js ''originid'')
      = [js ''w1'']"
proof
  have d: "distinct (handleEditorUpdate editorState prevEditorState attributeName)"
    by (simp add: handleEditorUpdate_def findDeletedWordIds_def deletedLoop_distinct)
  have s: "set (handleEditorUpdate editorState prevEditorState attributeName) =
     (attributeValuesIn attributeName prevEditorState - {[]})
       - (attributeValuesIn attributeName editorState - {[]})"
    by (simp add: handleEditorUpdate_def findDeletedWordIds_def deletedLoop_set
        collectWordIds_values)
  show "count_list (handleEditorUpdate editorState prevEditorState attributeName) x =
     (if x \<noteq> [] \<and> x \<in> attributeValuesIn attributeName prevEditorState
           \<and> x \<notin> attributeValuesIn attributeName editorState
      then 1 else 0)"
    using count_list_distinct [OF d, of x] s by auto
next
  show "handleEditorUpdate
        (ElementNode None
           [ElementNode (Some [js ''originid'' \<mapsto> js ''w2'']) [TextLeaf (js ''y'')]])
        (ElementNode None
           [ElementNode (Some [js ''originid'' \<mapsto> js ''w1'']) [TextLeaf (js ''x'')],
            ElementNode (Some [js ''originid'' \<mapsto> js ''w2''])
              [TextLeaf (js ''y''), TextLeaf (js ''z'')],
            ElementNode (Some [js ''originid'' \<mapsto> js ''w3'']) []])
        (js ''originid'')
      = [js ''w1'']"
    by (simp add: handleEditorUpdate_def findDeletedWordIds_def collectWordIds_def
        Set_add_def Set_has_def js_def Let_def)
qed

section \<open>Properties of the block identifier assigner\<close>

subsection \<open>What a pass computes\<close>








subsection \<open>Evaluation\<close>

lemmas assigner_eval =
  processAllRootChildren_def collectExistingUniqueValues_def
  assignUniqueAttributeIfNeeded_def getUniqueAttributeValue_def setUniqueAttributeValue_def
  generateUniqueId_def Set_add_def Set_has_def Prefix_UNIQUE_def js_def
  DATA_UNIQUE_ATTRIBUTE_def Let_def

text \<open>
  Were a DOM element with a \<open>data-unique\<close> value stored in \<open>__dom\<close>, a pass would
  not keep the value: the set of existing values is filled from all blocks before
  the loop, the block finds its own value in it, and the value is replaced by a
  generated one.
\<close>

lemma dom_backed_value_is_regenerated:
  "map getUniqueAttributeValue
     (fst (processAllRootChildren
        \<lparr>now = (\<lambda>n. js ''2''), random36 = (\<lambda>n. js ''b'')\<rparr> 0
        [ElementBlock (Some [DATA_UNIQUE_ATTRIBUTE \<mapsto> js ''unique-1-a''])]))
   = [Some (js ''unique-2-b'')]"
  by (simp add: assigner_eval)

text \<open>
  \<open>generateUniqueId\<close> is not checked against the existing values: when the clock
  and the random suffix repeat, two blocks receive the same identifier.
\<close>

lemma repeated_generator_repeats_id:
  "map getUniqueAttributeValue
     (fst (processAllRootChildren
        \<lparr>now = (\<lambda>n. js ''2''), random36 = (\<lambda>n. js ''b'')\<rparr> 0
        [ElementBlock (Some (\<lambda>a. None)), ElementBlock (Some (\<lambda>a. None))]))
   = [Some (js ''unique-2-b''), Some (js ''unique-2-b'')]"
  by (simp add: assigner_eval)

subsection \<open>Nodes without a DOM element\<close>













end
